theory Spec2Isabelle
  imports Main
begin

section \<open>Data model of the photo controller\<close>

text \<open>
  The controller (\<^verbatim>\<open>updatePhotoWork\<close>, \<^verbatim>\<open>toggleFlag\<close>, \<^verbatim>\<open>setPhotosFlagged\<close>) runs on the
  single JavaScript thread of the renderer process. Everything between two suspension
  points runs without interruption, so a run of the program is a sequence of events:
  calls of the exported functions and settlements of the promises they created. The
  collaborators (\<^verbatim>\<open>fetchPhotoWork\<close>, \<^verbatim>\<open>storePhotoWork\<close>, \<^verbatim>\<open>onThumnailChange\<close>,
  \<^verbatim>\<open>store.dispatch\<close>, the ORM model \<^verbatim>\<open>Photo\<close>) are not part of the controller; each call of
  one of them is recorded, in order, in a log of effects.
\<close>

type_synonym path = string
type_synonym photoId = int

text \<open>The JavaScript values a \<^verbatim>\<open>flagged\<close> or \<^verbatim>\<open>flag\<close> property can hold, with their truthiness.\<close>

datatype jsval = JUndefined | JNull | JBool bool | JNum int | JStr string

fun truthy :: "jsval \<Rightarrow> bool" where
  "truthy JUndefined = False"
| "truthy JNull = False"
| "truthy (JBool b) = b"
| "truthy (JNum n) = (n \<noteq> 0)"
| "truthy (JStr s) = (s \<noteq> [])"

text \<open>
  \<^verbatim>\<open>PhotoWork\<close> is declared in \<^verbatim>\<open>common/models/Photo\<close>. The controller reads and writes one
  property of it, \<^verbatim>\<open>flagged\<close>, which may be absent (\<open>None\<close>); all other properties (the edit
  operations) are opaque to it and are kept together in \<open>edits\<close>. \<^verbatim>\<open>cloneDeep\<close> and
  \<^verbatim>\<open>isDeepEqual\<close> are structural, so a deep copy is the value itself and deep equality is
  equality of values.
\<close>

record 'e photoWork =
  flagged :: "jsval option"
  edits :: 'e

text \<open>\<^verbatim>\<open>PhotoType\<close>: the properties the controller reads.\<close>

record photoType =
  photo_id :: photoId
  master :: path
  flag :: jsval

text \<open>
  A mutation function \<^verbatim>\<open>(photoWork: PhotoWork) => void\<close> changes the one fetched object in
  place; it is the function from the object's value before to its value after. (A mutation
  that throws, or that calls the controller again while the queue is applied, is outside
  this model.)
\<close>

type_synonym 'e mutation = "'e photoWork \<Rightarrow> 'e photoWork"

text \<open>
  Each \<^verbatim>\<open>fetchPhotoWork(photoPath).then(...).catch(...)\<close> is one promise chain. It is
  \<open>Fetching\<close> until the fetch settles, \<open>Persisting\<close> while the \<^verbatim>\<open>Promise.all\<close> returned by
  the \<^verbatim>\<open>then\<close> callback is pending, and \<open>Settled\<close> afterwards.
\<close>

datatype chain = Fetching | Persisting | Settled

text \<open>
  The object \<^verbatim>\<open>{ photo, updates }\<close> created in the \<^verbatim>\<open>else\<close> branch of \<^verbatim>\<open>updatePhotoWork\<close>,
  together with the state of the promise chain started right after it. The callbacks of the
  chain hold the object itself (the variable \<^verbatim>\<open>pendingUpdate\<close> of the closure), not the
  registry slot.
\<close>

record 'e pendingUpdate =
  photo :: photoType
  updates :: "'e mutation list"
  chain :: chain

datatype 'e effect =
    FetchPhotoWork path
  | DispatchChangePhotoWork photoId "'e photoWork"
  | StorePhotoWork path "'e photoWork"
  | OnThumnailChange photoId
  | ConsoleError path
  | SaveFlag photoId bool
  | FetchPhoto photoId
  | DispatchChangePhotos "photoType list"

text \<open>
  \<open>objs\<close> is the store of \<^verbatim>\<open>pendingUpdate\<close> objects: an object's address is its index, a new
  object is appended. \<open>pendingUpdates\<close> is the registry \<^verbatim>\<open>pendingUpdates\<close>, from photo path to
  the address of the registered object. (The source declares the registry as an array and
  indexes it by the path string; for every path that is not the name of a property of
  \<^verbatim>\<open>Array.prototype\<close> this is a map from strings to objects.)
\<close>

record 'e state =
  objs :: "'e pendingUpdate list"
  pendingUpdates :: "path \<rightharpoonup> nat"
  effects :: "'e effect list"

definition init :: "'e state" where
  "init = \<lparr>objs = [], pendingUpdates = Map.empty, effects = []\<rparr>"

section \<open>The update queue\<close>

definition updatePhotoWork :: "'e state \<Rightarrow> photoType \<Rightarrow> 'e mutation \<Rightarrow> 'e state" where
  "updatePhotoWork s ph update =
     (let photoPath = master ph in
      case pendingUpdates s photoPath of
        Some a \<Rightarrow>
          s\<lparr>objs := (objs s)[a := (objs s ! a)\<lparr>updates := updates (objs s ! a) @ [update]\<rparr>]\<rparr>
      | None \<Rightarrow>
          s\<lparr>objs := objs s @ [\<lparr>photo = ph, updates = [update], chain = Fetching\<rparr>],
            pendingUpdates := (pendingUpdates s)(photoPath \<mapsto> length (objs s)),
            effects := effects s @ [FetchPhotoWork photoPath]\<rparr>)"

text \<open>The loop \<^verbatim>\<open>for (const up of pendingUpdate.updates) up(photoWork)\<close>.\<close>

definition applyUpdates :: "'e mutation list \<Rightarrow> 'e photoWork \<Rightarrow> 'e photoWork" where
  "applyUpdates ups photoWork = foldl (\<lambda>w up. up w) photoWork ups"

text \<open>
  Lines 118 to 124: the copy taken before the mutations gets the \<^verbatim>\<open>flagged\<close> state of the
  result (\<^verbatim>\<open>true\<close> when the result's is truthy, deleted otherwise) and is then compared
  with the result.
\<close>

definition thumbnailNeedsUpdate :: "'e photoWork \<Rightarrow> 'e photoWork \<Rightarrow> bool" where
  "thumbnailNeedsUpdate photoWorkCopyBefore photoWork =
     (let before' =
        (if (case flagged photoWork of None \<Rightarrow> False | Some v \<Rightarrow> truthy v)
         then photoWorkCopyBefore\<lparr>flagged := Some (JBool True)\<rparr>
         else photoWorkCopyBefore\<lparr>flagged := None\<rparr>)
      in before' \<noteq> photoWork)"

text \<open>The \<^verbatim>\<open>then\<close> callback of the chain of object \<open>a\<close>, run with the fetched value.\<close>

definition onFetched :: "'e state \<Rightarrow> nat \<Rightarrow> 'e photoWork \<Rightarrow> 'e state" where
  "onFetched s a fetched =
     (let pendingUpdate = objs s ! a;
          ph = photo pendingUpdate;
          photoPath = master ph;
          photoWorkCopyBefore = fetched;
          photoWork = applyUpdates (updates pendingUpdate) fetched
      in s\<lparr>objs := (objs s)[a := pendingUpdate\<lparr>chain := Persisting\<rparr>],
           pendingUpdates := (pendingUpdates s)(photoPath := None),
           effects := effects s @
             [DispatchChangePhotoWork (photo_id ph) photoWork, StorePhotoWork photoPath photoWork] @
             (if thumbnailNeedsUpdate photoWorkCopyBefore photoWork
              then [OnThumnailChange (photo_id ph)] else [])\<rparr>)"

text \<open>
  The \<^verbatim>\<open>catch\<close> callback of the chain of object \<open>a\<close>. It is at the end of the chain, so it
  runs when the fetch rejects and also when the \<^verbatim>\<open>Promise.all\<close> of the \<^verbatim>\<open>then\<close> callback
  rejects.
\<close>

definition onFailed :: "'e state \<Rightarrow> nat \<Rightarrow> 'e state" where
  "onFailed s a =
     (let pendingUpdate = objs s ! a;
          photoPath = master (photo pendingUpdate)
      in s\<lparr>objs := (objs s)[a := pendingUpdate\<lparr>chain := Settled\<rparr>],
           pendingUpdates := (pendingUpdates s)(photoPath := None),
           effects := effects s @ [ConsoleError photoPath]\<rparr>)"

definition onPersisted :: "'e state \<Rightarrow> nat \<Rightarrow> 'e state" where
  "onPersisted s a = s\<lparr>objs := (objs s)[a := (objs s ! a)\<lparr>chain := Settled\<rparr>]\<rparr>"

datatype 'e event =
    UpdatePhotoWork photoType "'e mutation"
  | FetchResolved nat "'e photoWork"
  | FetchRejected nat
  | PersistResolved nat
  | PersistRejected nat

text \<open>An event can happen when its promise exists and is pending; \<open>None\<close> otherwise.\<close>

definition awaiting :: "'e state \<Rightarrow> nat \<Rightarrow> chain \<Rightarrow> bool" where
  "awaiting s a c = (a < length (objs s) \<and> chain (objs s ! a) = c)"

fun step :: "'e state \<Rightarrow> 'e event \<Rightarrow> 'e state option" where
  "step s (UpdatePhotoWork ph update) = Some (updatePhotoWork s ph update)"
| "step s (FetchResolved a fetched) =
     (if awaiting s a Fetching then Some (onFetched s a fetched) else None)"
| "step s (FetchRejected a) = (if awaiting s a Fetching then Some (onFailed s a) else None)"
| "step s (PersistResolved a) =
     (if awaiting s a Persisting then Some (onPersisted s a) else None)"
| "step s (PersistRejected a) = (if awaiting s a Persisting then Some (onFailed s a) else None)"

fun run :: "'e state \<Rightarrow> 'e event list \<Rightarrow> 'e state option" where
  "run s [] = Some s"
| "run s (e # es) = (case step s e of None \<Rightarrow> None | Some s' \<Rightarrow> run s' es)"

text \<open>A burst of calls of \<^verbatim>\<open>updatePhotoWork\<close>, one after the other.\<close>

definition calls :: "'e state \<Rightarrow> (photoType \<times> 'e mutation) list \<Rightarrow> 'e state" where
  "calls s cs = foldl (\<lambda>s (ph, update). updatePhotoWork s ph update) s cs"

subsection \<open>Notions used to state the properties\<close>

text \<open>The photo path a \<^verbatim>\<open>pendingUpdate\<close> object was created for.\<close>

definition pathOf :: "'e state \<Rightarrow> nat \<Rightarrow> path" where
  "pathOf s a = master (photo (objs s ! a))"

text \<open>
  Two invariants. \<open>consistent\<close>: a registry slot holds an object of that path whose fetch is
  in flight. \<open>registered\<close>: every object whose fetch is in flight is the one in its path's
  slot.
\<close>

definition consistent :: "'e state \<Rightarrow> bool" where
  "consistent s \<longleftrightarrow>
     (\<forall>p a. pendingUpdates s p = Some a \<longrightarrow>
        a < length (objs s) \<and> pathOf s a = p \<and> chain (objs s ! a) = Fetching)"

definition registered :: "'e state \<Rightarrow> bool" where
  "registered s \<longleftrightarrow>
     (\<forall>a < length (objs s). chain (objs s ! a) = Fetching \<longrightarrow>
        pendingUpdates s (pathOf s a) = Some a)"

text \<open>The fetches of the PhotoWork of path \<open>p\<close> that are in flight, by object address.\<close>

definition outstanding :: "'e state \<Rightarrow> path \<Rightarrow> nat list" where
  "outstanding s p =
     filter (\<lambda>a. chain (objs s ! a) = Fetching \<and> pathOf s a = p) [0..<length (objs s)]"

fun isPersistRejected :: "'e event \<Rightarrow> bool" where
  "isPersistRejected (PersistRejected a) = True"
| "isPersistRejected _ = False"

text \<open>
  First in, first out, in the words of the specification: the mutation submitted first is
  applied first, the next one to its result.
\<close>

primrec inOrder :: "'e mutation list \<Rightarrow> 'e photoWork \<Rightarrow> 'e photoWork" where
  "inOrder [] w = w"
| "inOrder (up # ups) w = inOrder ups (up w)"

text \<open>
  \<open>clearsSlot p s e\<close>: event \<open>e\<close> runs a callback that executes
  \<^verbatim>\<open>delete pendingUpdates[p]\<close>. A trace is \<open>undisturbed\<close> for \<open>p\<close> when it can run and
  none of its events does so: during it no fetch of \<open>p\<close> settles, and no persistence step
  of an earlier cycle of \<open>p\<close> rejects.
\<close>

fun clearsSlot :: "path \<Rightarrow> 'e state \<Rightarrow> 'e event \<Rightarrow> bool" where
  "clearsSlot p s (UpdatePhotoWork ph up) = False"
| "clearsSlot p s (FetchResolved a fetched) = (pathOf s a = p)"
| "clearsSlot p s (FetchRejected a) = (pathOf s a = p)"
| "clearsSlot p s (PersistResolved a) = False"
| "clearsSlot p s (PersistRejected a) = (pathOf s a = p)"

fun undisturbed :: "path \<Rightarrow> 'e state \<Rightarrow> 'e event list \<Rightarrow> bool" where
  "undisturbed p s [] = True"
| "undisturbed p s (e # es) =
     (\<not> clearsSlot p s e \<and> (case step s e of None \<Rightarrow> False | Some s' \<Rightarrow> undisturbed p s' es))"

text \<open>The calls of \<^verbatim>\<open>updatePhotoWork\<close> for path \<open>p\<close> in a trace, in the order submitted.\<close>

fun callsFor :: "path \<Rightarrow> 'e event list \<Rightarrow> (photoType \<times> 'e mutation) list" where
  "callsFor p [] = []"
| "callsFor p (UpdatePhotoWork ph up # es) =
     (if master ph = p then (ph, up) # callsFor p es else callsFor p es)"
| "callsFor p (e # es) = callsFor p es"

text \<open>The paths \<^verbatim>\<open>fetchPhotoWork\<close> was called with, and the paths of the calls of a trace.\<close>

fun fetches :: "'e effect list \<Rightarrow> path list" where
  "fetches [] = []"
| "fetches (FetchPhotoWork p # fs) = p # fetches fs"
| "fetches (f # fs) = fetches fs"

fun callPaths :: "'e event list \<Rightarrow> path list" where
  "callPaths [] = []"
| "callPaths (UpdatePhotoWork ph up # es) = master ph # callPaths es"
| "callPaths (e # es) = callPaths es"

text \<open>The mutation \<^verbatim>\<open>storeFlagged\<close> passes to \<^verbatim>\<open>updatePhotoWork\<close> (lines 191 to 197).\<close>

definition flagMutation :: "bool \<Rightarrow> 'e mutation" where
  "flagMutation newFlagged photoWork =
     (if newFlagged then photoWork\<lparr>flagged := Some (JBool True)\<rparr>
      else photoWork\<lparr>flagged := None\<rparr>)"

text \<open>A mutation that writes the edit operations, such as \<^verbatim>\<open>w => w.crop = X\<close>.\<close>

definition setEdits :: "'e \<Rightarrow> 'e mutation" where
  "setEdits v photoWork = photoWork\<lparr>edits := v\<rparr>"

text \<open>
  Some mutation of the queue changes a property other than \<^verbatim>\<open>flagged\<close> of the PhotoWork
  it is applied to.
\<close>

fun someMutationChangesEdits :: "'e mutation list \<Rightarrow> 'e photoWork \<Rightarrow> bool" where
  "someMutationChangesEdits [] w = False"
| "someMutationChangesEdits (up # ups) w =
     (if edits (up w) = edits w then someMutationChangesEdits ups (up w) else True)"

text \<open>Sample data.\<close>

definition photoA :: photoType where
  "photoA = \<lparr>photo_id = 1, master = ''/photos/a.jpg'', flag = JNum 0\<rparr>"

definition photoB :: photoType where
  "photoB = \<lparr>photo_id = 2, master = ''/photos/b.jpg'', flag = JNum 1\<rparr>"

definition plain :: "int photoWork" where
  "plain = \<lparr>flagged = None, edits = 0\<rparr>"

definition fetchingA :: "int state" where
  "fetchingA = updatePhotoWork init photoA (setEdits 1)"

definition flaggingA :: "int state" where
  "flaggingA = updatePhotoWork init photoA (flagMutation True)"

definition scenarioA :: "int state" where
  "scenarioA = calls init [(photoA, setEdits 7), (photoA, flagMutation True)]"

definition burst :: "int event list" where
  "burst = [UpdatePhotoWork photoA (setEdits 7), UpdatePhotoWork photoB (setEdits 2),
            UpdatePhotoWork photoA (flagMutation True)]"

definition twoPaths :: "int event list" where
  "twoPaths = [UpdatePhotoWork photoA (setEdits 1), FetchResolved 0 plain,
               UpdatePhotoWork photoB (setEdits 2)]"

definition refetch :: "int event list" where
  "refetch = [UpdatePhotoWork photoA (setEdits 1), FetchResolved 0 plain,
              UpdatePhotoWork photoA (setEdits 2)]"

definition reopen :: "int event list" where
  "reopen = [UpdatePhotoWork photoA (setEdits 1), FetchResolved 0 plain,
             UpdatePhotoWork photoA (setEdits 2), PersistRejected 0,
             UpdatePhotoWork photoA (setEdits 3)]"

definition otherCall :: "int event list" where
  "otherCall = [UpdatePhotoWork photoB (setEdits 2)]"

section \<open>Flagging photos\<close>

text \<open>
  \<^verbatim>\<open>toggleFlag\<close> and \<^verbatim>\<open>setPhotosFlagged\<close> call \<^verbatim>\<open>storeFlagged\<close> and the ORM. A call of
  \<^verbatim>\<open>save('flag', ...)\<close> is the effect \<open>SaveFlag\<close>, a call of \<^verbatim>\<open>fetch\<close> the effect
  \<open>FetchPhoto\<close>, \<^verbatim>\<open>store.dispatch(changePhotosAction(...))\<close> the effect
  \<open>DispatchChangePhotos\<close>.
\<close>

definition storeFlagged :: "'e state \<Rightarrow> photoType \<Rightarrow> bool \<Rightarrow> 'e state" where
  "storeFlagged s ph newFlagged = updatePhotoWork s ph (flagMutation newFlagged)"

text \<open>
  Both functions return at once and go on in promise callbacks, between which anything
  else can happen: calls of \<^verbatim>\<open>updatePhotoWork\<close> by other callers, settlements of fetches.
  A \<open>task\<close> is the state of one such promise chain.
  \<^item> \<^verbatim>\<open>toggleFlag\<close>: the save is pending (\<open>ToggleSaving\<close>); then the fetch of the record is
    pending (\<open>ToggleFetching\<close>).
  \<^item> \<^verbatim>\<open>setPhotosFlagged\<close>: \<^verbatim>\<open>Promise.each\<close> is about to call the iterator for the first of
    the remaining photos, or the final \<^verbatim>\<open>then\<close> callback when none remains (\<open>EachReady\<close>,
    with all photos, the remaining ones and the flag); the save returned by the iterator
    is pending (\<open>EachSaving\<close>, with the photos remaining after it).
  \<^item> \<open>Finished\<close>: the chain has run to its end. \<open>Failed\<close>: a save or fetch has rejected;
    no callback of the chain handles a rejection, so nothing more happens.
  The application state is the state of the update queue, whose log takes all effects,
  and the tasks, each known by its index.
\<close>

datatype task =
    ToggleSaving photoType
  | ToggleFetching photoType
  | EachReady "photoType list" "photoType list" bool
  | EachSaving "photoType list" "photoType list" bool
  | Finished
  | Failed

record 'e app =
  queue :: "'e state"
  tasks :: "task list"

text \<open>Appending an effect to the log.\<close>

definition emit :: "'e app \<Rightarrow> 'e effect \<Rightarrow> 'e app" where
  "emit a x = a\<lparr>queue := (queue a)\<lparr>effects := effects (queue a) @ [x]\<rparr>\<rparr>"



definition flagEach :: "'e app \<Rightarrow> photoType \<Rightarrow> bool \<Rightarrow> 'e app" where
  "flagEach a ph flg =
     emit (a\<lparr>queue := storeFlagged (queue a) ph flg\<rparr>) (SaveFlag (photo_id ph) flg)"


definition become :: "'e app \<Rightarrow> nat \<Rightarrow> task \<Rightarrow> 'e app" where
  "become a t tk = a\<lparr>tasks := (tasks a)[t := tk]\<rparr>"




text \<open>
  The effects on the ORM and the photo records (\<open>dbLog\<close>) and those of the update queue
  (\<open>queueLog\<close>); the events that start a flagging task.
\<close>

fun isDb :: "'e effect \<Rightarrow> bool" where
  "isDb (SaveFlag i b) = True"
| "isDb (FetchPhoto i) = True"
| "isDb (DispatchChangePhotos phs) = True"
| "isDb _ = False"

definition dbLog :: "'e app \<Rightarrow> 'e effect list" where
  "dbLog a = filter isDb (effects (queue a))"














section \<open>The detail reducer\<close>

text \<open>
  The reducer \<^verbatim>\<open>detail\<close> works on values of the type \<^verbatim>\<open>DetailState\<close>: \<^verbatim>\<open>null\<close> (\<open>None\<close>) or
  an object with all the declared properties. Where the JavaScript reads a property of
  \<^verbatim>\<open>null\<close> the result is \<open>TypeError\<close>; where it returns an object that lacks a declared
  property (the spread of a \<^verbatim>\<open>null\<close> state) the result is \<open>IllTyped\<close>.

  PhotoWork objects are held by reference, so that a copy can be told from the original:
  the store is the list of the objects, an address is an index, and a new object is
  appended. The references a state or an action holds are addresses of the store.
  \<open>detailAction\<close> lists the action types the reducer distinguishes, each with the part of
  the payload the reducer reads.
\<close>

datatype jsError = TypeError | IllTyped

datatype fetchState = IDLE | FETCHING | FAILURE

type_synonym ref = nat

record 'v photoDetail =
  versions :: 'v
  tags :: "string list"

record 'v currentPhoto =
  fetchState :: fetchState
  sectionId :: string
  photoIndex :: int
  photoId :: photoId
  photoDetail :: "'v photoDetail option"
  photoWork :: "ref option"

record 'v detailState =
  showDiff :: bool
  currentPhoto :: "'v currentPhoto"

datatype 'v detailAction =
    SET_DETAIL_PHOTO_REQUEST string int photoId
  | SET_DETAIL_PHOTO_SUCCESS "'v photoDetail" ref
  | SET_DETAIL_PHOTO_FAILURE
  | SET_PHOTO_TAGS photoId "string list"
  | CHANGE_PHOTOWORK photoId ref
  | FETCH_SECTIONS_SUCCESS
  | FETCH_SECTIONS_FAILURE
  | CLOSE_DETAIL
  | CHANGE_PHOTOS "bool option"
  | EMPTY_TRASH "photoId list"
  | OPEN_DIFF
  | CLOSE_DIFF
  | OTHER_ACTION

fun detail ::
  "'e photoWork list \<Rightarrow> 'v detailState option \<Rightarrow> 'v detailAction \<Rightarrow>
     jsError + ('v detailState option \<times> 'e photoWork list)" where
  "detail h state (SET_DETAIL_PHOTO_REQUEST sid idx pid) =
     Inr (Some \<lparr>showDiff = False,
                currentPhoto = \<lparr>fetchState = FETCHING, sectionId = sid, photoIndex = idx,
                  photoId = pid, photoDetail = None, photoWork = None\<rparr>\<rparr>, h)"
| "detail h state (SET_DETAIL_PHOTO_SUCCESS pd pw) =
     (case state of
        None \<Rightarrow> Inl TypeError
      | Some st \<Rightarrow>
          Inr (Some (st\<lparr>currentPhoto := (currentPhoto st)
                 \<lparr>fetchState := IDLE, photoDetail := Some pd, photoWork := Some pw\<rparr>\<rparr>), h))"
| "detail h state SET_DETAIL_PHOTO_FAILURE =
     (case state of
        None \<Rightarrow> Inl TypeError
      | Some st \<Rightarrow> Inr (Some (st\<lparr>currentPhoto := (currentPhoto st)\<lparr>fetchState := FAILURE\<rparr>\<rparr>), h))"
| "detail h state (SET_PHOTO_TAGS pid ts) =
     (case state of
        None \<Rightarrow> Inr (state, h)
      | Some st \<Rightarrow>
          (case photoDetail (currentPhoto st) of
             Some pd \<Rightarrow>
               if photoId (currentPhoto st) = pid
               then Inr (Some (st\<lparr>currentPhoto := (currentPhoto st)
                      \<lparr>photoDetail := Some (pd\<lparr>tags := ts\<rparr>)\<rparr>\<rparr>), h)
               else Inr (state, h)
           | None \<Rightarrow> Inr (state, h)))"
| "detail h state (CHANGE_PHOTOWORK pid pw) =
     (case state of
        None \<Rightarrow> Inr (state, h)
      | Some st \<Rightarrow>
          if photoId (currentPhoto st) = pid
          then Inr (Some (st\<lparr>currentPhoto := (currentPhoto st)\<lparr>photoWork := Some (length h)\<rparr>\<rparr>),
                    h @ [h ! pw])
          else Inr (state, h))"
| "detail h state FETCH_SECTIONS_SUCCESS = Inr (None, h)"
| "detail h state FETCH_SECTIONS_FAILURE = Inr (None, h)"
| "detail h state CLOSE_DETAIL = Inr (None, h)"
| "detail h state (CHANGE_PHOTOS trashed) =
     (if state \<noteq> None \<and> trashed \<noteq> None then Inr (None, h) else Inr (state, h))"
| "detail h state (EMPTY_TRASH trashedPhotoIds) =
     (case state of
        None \<Rightarrow> Inr (state, h)
      | Some st \<Rightarrow>
          if photoId (currentPhoto st) \<in> set trashedPhotoIds then Inr (None, h)
          else Inr (state, h))"
| "detail h state OPEN_DIFF =
     (case state of None \<Rightarrow> Inl IllTyped | Some st \<Rightarrow> Inr (Some (st\<lparr>showDiff := True\<rparr>), h))"
| "detail h state CLOSE_DIFF =
     (case state of None \<Rightarrow> Inl IllTyped | Some st \<Rightarrow> Inr (Some (st\<lparr>showDiff := False\<rparr>), h))"
| "detail h state OTHER_ACTION = Inr (state, h)"

text \<open>The state is \<^verbatim>\<open>null\<close> or shows another photo than the action is about.\<close>

definition otherPhoto :: "'v detailState option \<Rightarrow> photoId \<Rightarrow> bool" where
  "otherPhoto state pid =
     (case state of None \<Rightarrow> True | Some st \<Rightarrow> photoId (currentPhoto st) \<noteq> pid)"

section \<open>The sections reducer, \<^verbatim>\<open>CHANGE_PHOTOS\<close>\<close>

text \<open>
  The branch \<^verbatim>\<open>CHANGE_PHOTOS\<close> of the reducer \<^verbatim>\<open>sections\<close> (lines 188 to 242). A section holds
  its \<^verbatim>\<open>photoIds\<close> array by reference: \<open>arrays\<close> maps the address of an array to its
  content, and \<^verbatim>\<open>splice\<close> changes the content at the address. \<^verbatim>\<open>photoIds\<close> and \<^verbatim>\<open>photoData\<close>
  are \<open>None\<close> while the photos of the section are not loaded.
\<close>

record photoSection =
  section_id :: string
  title :: string
  count :: int
  photoIds :: "ref option"
  photoData :: "(photoId \<rightharpoonup> photoType) option"

record sectionsState =
  sections_fetchState :: fetchState
  totalPhotoCount :: "int option"
  photoCount :: int
  ids :: "string list"
  byId :: "string \<rightharpoonup> photoSection"

type_synonym arrays = "ref \<Rightarrow> photoId list"

text \<open>\<^verbatim>\<open>totalPhotoCount--\<close>, where \<^verbatim>\<open>null\<close> counts as 0.\<close>

definition decrement :: "int option \<Rightarrow> int option" where
  "decrement n = Some ((case n of None \<Rightarrow> 0 | Some k \<Rightarrow> k) - 1)"

text \<open>
  The inner loop over \<^verbatim>\<open>updatedPhotos\<close> for one section with loaded \<^verbatim>\<open>photoData\<close>. The
  accumulator holds the array store, \<^verbatim>\<open>newSection\<close> with \<^verbatim>\<open>newPhotoData\<close> (\<open>None\<close> while
  undefined), \<^verbatim>\<open>totalPhotoCount\<close> and \<^verbatim>\<open>photoCount\<close>. \<^verbatim>\<open>newSection\<close> is the spread of
  \<^verbatim>\<open>section\<close>, so its \<^verbatim>\<open>photoIds\<close> is the address of the same array; \<^verbatim>\<open>indexOf\<close> followed by
  \<^verbatim>\<open>splice(index, 1)\<close> removes the first occurrence of the id from that array.
\<close>

fun updatePhotos ::
  "bool option \<Rightarrow> photoSection \<Rightarrow> (photoId \<rightharpoonup> photoType) \<Rightarrow> photoType list \<Rightarrow>
   arrays \<times> (photoSection \<times> (photoId \<rightharpoonup> photoType)) option \<times> int option \<times> int \<Rightarrow>
   jsError + arrays \<times> (photoSection \<times> (photoId \<rightharpoonup> photoType)) option \<times> int option \<times> int"
where
  "updatePhotos trashed section pd [] acc = Inr acc"
| "updatePhotos trashed section pd (updatedPhoto # rest) (arrs, new, totalCount, photoCnt) =
     (case pd (photo_id updatedPhoto) of
        None \<Rightarrow> updatePhotos trashed section pd rest (arrs, new, totalCount, photoCnt)
      | Some prevPhoto \<Rightarrow>
          (let (newSection, newPhotoData) = (case new of None \<Rightarrow> (section, pd) | Some n \<Rightarrow> n)
           in if trashed \<noteq> None
              then (case photoIds newSection of
                      None \<Rightarrow> Inl TypeError
                    | Some r \<Rightarrow>
                        updatePhotos trashed section pd rest
                          (arrs(r := remove1 (photo_id prevPhoto) (arrs r)),
                           Some (newSection\<lparr>count := count newSection - 1\<rparr>, newPhotoData),
                           (if trashed = Some True then decrement totalCount else totalCount),
                           photoCnt - 1))
              else updatePhotos trashed section pd rest
                     (arrs,
                      Some (newSection, newPhotoData(photo_id updatedPhoto \<mapsto> updatedPhoto)),
                      totalCount, photoCnt)))"

text \<open>The outer loop over \<^verbatim>\<open>state.ids\<close>.\<close>

fun changeSections ::
  "bool option \<Rightarrow> photoType list \<Rightarrow> (string \<rightharpoonup> photoSection) \<Rightarrow> string list \<Rightarrow>
   arrays \<times> int option \<times> int \<times> string list \<times> (string \<rightharpoonup> photoSection) \<Rightarrow>
   jsError + arrays \<times> int option \<times> int \<times> string list \<times> (string \<rightharpoonup> photoSection)"
where
  "changeSections trashed updatedPhotos sectionById [] acc = Inr acc"
| "changeSections trashed updatedPhotos sectionById (sid # rest)
     (arrs, totalCount, photoCnt, newSectionIds, newSectionById) =
     (case sectionById sid of
        None \<Rightarrow> Inl TypeError
      | Some section \<Rightarrow>
          (case (case photoData section of
                   None \<Rightarrow> Inr (arrs, None, totalCount, photoCnt)
                 | Some pd \<Rightarrow> updatePhotos trashed section pd updatedPhotos (arrs, None, totalCount, photoCnt))
           of
             Inl e \<Rightarrow> Inl e
           | Inr (arrs', new, totalCount', photoCnt') \<Rightarrow>
               (case new of
                  None \<Rightarrow>
                    changeSections trashed updatedPhotos sectionById rest
                      (arrs', totalCount', photoCnt', newSectionIds @ [sid],
                       newSectionById(sid \<mapsto> section))
                | Some (newSection, newPhotoData) \<Rightarrow>
                    (case photoIds newSection of
                       None \<Rightarrow> Inl TypeError
                     | Some r \<Rightarrow>
                         if length (arrs' r) \<noteq> 0
                         then changeSections trashed updatedPhotos sectionById rest
                                (arrs', totalCount', photoCnt', newSectionIds @ [sid],
                                 newSectionById(sid \<mapsto>
                                   newSection\<lparr>photoData := Some newPhotoData\<rparr>))
                         else changeSections trashed updatedPhotos sectionById rest
                                (arrs', totalCount', photoCnt', newSectionIds, newSectionById)))))"

definition sections_CHANGE_PHOTOS ::
  "arrays \<Rightarrow> sectionsState \<Rightarrow> photoType list \<Rightarrow> bool option \<Rightarrow>
   jsError + sectionsState \<times> arrays" where
  "sections_CHANGE_PHOTOS arrs state updatedPhotos trashed =
     (case changeSections trashed updatedPhotos (byId state) (ids state)
             (arrs, totalPhotoCount state, photoCount state, [], Map.empty) of
        Inl e \<Rightarrow> Inl e
      | Inr (arrs', totalCount, photoCnt, newSectionIds, newSectionById) \<Rightarrow>
          Inr (state\<lparr>totalPhotoCount := totalCount, photoCount := photoCnt, ids := newSectionIds,
                     byId := newSectionById\<rparr>, arrs'))"

text \<open>Sample data: one section with two loaded photos.\<close>

definition june :: photoSection where
  "june = \<lparr>section_id = ''2018-06'', title = ''June 2018'', count = 2, photoIds = Some 0,
           photoData = Some [1 \<mapsto> photoA, 2 \<mapsto> photoB]\<rparr>"

definition library :: sectionsState where
  "library = \<lparr>sections_fetchState = IDLE, totalPhotoCount = Some 2, photoCount = 2,
              ids = [''2018-06''], byId = [''2018-06'' \<mapsto> june]\<rparr>"

definition libraryArrays :: arrays where
  "libraryArrays = (\<lambda>r. [])(0 := [1, 2])"

text \<open>The parts of a result.\<close>

definition arraysAfter :: "jsError + sectionsState \<times> arrays \<Rightarrow> ref \<Rightarrow> photoId list" where
  "arraysAfter res r = (case res of Inl e \<Rightarrow> [] | Inr (state', arrs') \<Rightarrow> arrs' r)"

definition stateAfter :: "jsError + sectionsState \<times> arrays \<Rightarrow> sectionsState option" where
  "stateAfter res = (case res of Inl e \<Rightarrow> None | Inr (state', arrs') \<Rightarrow> Some state')"

section \<open>The directory walker\<close>

text \<open>
  The file system below a directory: the entries \<^verbatim>\<open>readdir\<close> returns, in its order, each
  with what \<^verbatim>\<open>stat\<close> says about it: a directory with its own entries, or anything else
  (\<open>File\<close>). \<^verbatim>\<open>Path.join\<close> is a function of the platform; it is the parameter \<open>join\<close>.
  \<open>walked\<close> is a value of the mapped array: \<^verbatim>\<open>false\<close>, a path, or an array of paths.
  A \<^verbatim>\<open>readdir\<close> or \<^verbatim>\<open>stat\<close> that fails rejects the whole walk; the model is of the walks in
  which none fails.
\<close>

datatype fsNode = File | Dir "(string \<times> fsNode) list"

datatype walked = WFalse | WPath string | WPaths "string list"

text \<open>\<^verbatim>\<open>filter(a => a)\<close> keeps the truthy values; \<^verbatim>\<open>(a, b) => a.concat(b)\<close> appends.\<close>

fun truthyItem :: "walked \<Rightarrow> bool" where
  "truthyItem WFalse = False"
| "truthyItem (WPath p) = (p \<noteq> [])"
| "truthyItem (WPaths ps) = True"

fun concatItem :: "string list \<Rightarrow> walked \<Rightarrow> string list" where
  "concatItem a WFalse = a"
| "concatItem a (WPath p) = a @ [p]"
| "concatItem a (WPaths ps) = a @ ps"

text \<open>\<open>walkEntry\<close> is the callback of \<^verbatim>\<open>map\<close>.\<close>

fun walker :: "(string \<Rightarrow> string \<Rightarrow> string) \<Rightarrow> string \<Rightarrow> string list \<Rightarrow>
    (string \<times> fsNode) list \<Rightarrow> walked"
  and walkEntry :: "(string \<Rightarrow> string \<Rightarrow> string) \<Rightarrow> string \<Rightarrow> string list \<Rightarrow>
    string \<times> fsNode \<Rightarrow> walked" where
  "walker join dirName blacklist entries =
     (if dirName \<in> set blacklist then WFalse
      else WPaths (foldl concatItem []
             (filter truthyItem (map (walkEntry join dirName blacklist) entries))))"
| "walkEntry join dirName blacklist (fileName, File) = WPath (join dirName fileName)"
| "walkEntry join dirName blacklist (fileName, Dir sub) =
     walker join (join dirName fileName) blacklist sub"

text \<open>
  Every entry below \<open>dirName\<close> that is not a directory, as the pair of the directories it
  lies in (each by the path the walker is called with for it, \<open>dirName\<close> first) and its
  own path. It is \<open>reachable\<close> when none of these directories is in the blacklist.
\<close>

fun filesBelow :: "(string \<Rightarrow> string \<Rightarrow> string) \<Rightarrow> string \<Rightarrow> (string \<times> fsNode) list \<Rightarrow>
    (string list \<times> string) list"
  and filesBelowEntry :: "(string \<Rightarrow> string \<Rightarrow> string) \<Rightarrow> string \<Rightarrow> string \<times> fsNode \<Rightarrow>
    (string list \<times> string) list" where
  "filesBelow join dirName entries = concat (map (filesBelowEntry join dirName) entries)"
| "filesBelowEntry join dirName (fileName, File) = [([dirName], join dirName fileName)]"
| "filesBelowEntry join dirName (fileName, Dir sub) =
     map (\<lambda>(ds, p). (dirName # ds, p)) (filesBelow join (join dirName fileName) sub)"

definition reachable :: "string list \<Rightarrow> string list \<times> string \<Rightarrow> bool" where
  "reachable blacklist f = (set (fst f) \<inter> set blacklist = {})"

text \<open>
  The listing in the words of the specification, with a name-based exclusion set: the files
  below \<open>dirName\<close> that lie in no directory whose name is in the set.
\<close>

fun listedByName :: "(string \<Rightarrow> string \<Rightarrow> string) \<Rightarrow> string list \<Rightarrow> string \<Rightarrow>
    (string \<times> fsNode) list \<Rightarrow> string list"
  and listedEntry :: "(string \<Rightarrow> string \<Rightarrow> string) \<Rightarrow> string list \<Rightarrow> string \<Rightarrow>
    string \<times> fsNode \<Rightarrow> string list" where
  "listedByName join names dirName entries = concat (map (listedEntry join names dirName) entries)"
| "listedEntry join names dirName (fileName, File) = [join dirName fileName]"
| "listedEntry join names dirName (fileName, Dir sub) =
     (if fileName \<in> set names then [] else listedByName join names (join dirName fileName) sub)"

text \<open>
  \<^verbatim>\<open>Path.join\<close> on a POSIX platform, for a normalized directory path without a trailing
  slash and a plain file name. Sample data.
\<close>

definition posixJoin :: "string \<Rightarrow> string \<Rightarrow> string" where
  "posixJoin d f = d @ ''/'' @ f"

definition photosTree :: "(string \<times> fsNode) list" where
  "photosTree = [(''skip'', Dir [(''x.jpg'', File)]), (''a.jpg'', File)]"

text \<open>More sample data: a detail view showing photo 1; a store.\<close>

definition showing :: "unit detailState" where
  "showing = \<lparr>showDiff = False,
               currentPhoto = \<lparr>fetchState = IDLE, sectionId = ''2018-06'', photoIndex = 0,
                 photoId = 1, photoDetail = None, photoWork = Some 0\<rparr>\<rparr>"

definition works :: "int photoWork list" where
  "works = [plain, \<lparr>flagged = None, edits = 5\<rparr>]"

section \<open>Properties of the update queue\<close>

subsection \<open>Field-wise descriptions of the callbacks\<close>

lemmas queue_simps =
  init_def updatePhotoWork_def onFetched_def onFailed_def onPersisted_def awaiting_def
  applyUpdates_def thumbnailNeedsUpdate_def pathOf_def Let_def photoA_def photoB_def plain_def
  flagMutation_def setEdits_def

lemma updatePhotoWork_queued:
  assumes "pendingUpdates s (master ph) = Some a"
  shows "updatePhotoWork s ph up =
    s\<lparr>objs := (objs s)[a := (objs s ! a)\<lparr>updates := updates (objs s ! a) @ [up]\<rparr>]\<rparr>"
  using assms by (simp add: updatePhotoWork_def)

lemma updatePhotoWork_new:
  assumes "pendingUpdates s (master ph) = None"
  shows "updatePhotoWork s ph up =
    s\<lparr>objs := objs s @ [\<lparr>photo = ph, updates = [up], chain = Fetching\<rparr>],
      pendingUpdates := (pendingUpdates s)(master ph \<mapsto> length (objs s)),
      effects := effects s @ [FetchPhotoWork (master ph)]\<rparr>"
  using assms by (simp add: updatePhotoWork_def Let_def)

lemma onFetched_fields:
  "objs (onFetched s a fetched) = (objs s)[a := (objs s ! a)\<lparr>chain := Persisting\<rparr>]"
  "pendingUpdates (onFetched s a fetched) = (pendingUpdates s)(pathOf s a := None)"
  by (simp_all add: onFetched_def Let_def pathOf_def)

lemma onFailed_fields:
  "objs (onFailed s a) = (objs s)[a := (objs s ! a)\<lparr>chain := Settled\<rparr>]"
  "pendingUpdates (onFailed s a) = (pendingUpdates s)(pathOf s a := None)"
  "effects (onFailed s a) = effects s @ [ConsoleError (pathOf s a)]"
  by (simp_all add: onFailed_def Let_def pathOf_def)

lemma onPersisted_fields:
  "objs (onPersisted s a) = (objs s)[a := (objs s ! a)\<lparr>chain := Settled\<rparr>]"
  "pendingUpdates (onPersisted s a) = pendingUpdates s"
  "effects (onPersisted s a) = effects s"
  by (simp_all add: onPersisted_def)

lemma applyUpdates_inOrder: "applyUpdates ups w = inOrder ups w"
  by (induction ups arbitrary: w) (simp_all add: applyUpdates_def)

lemma fetches_append: "fetches (xs @ ys) = fetches xs @ fetches ys"
  by (induction xs rule: fetches.induct) simp_all

lemma onFetched_effects:
  "effects (onFetched s a fetched) = effects s @
     [DispatchChangePhotoWork (photo_id (photo (objs s ! a))) (inOrder (updates (objs s ! a)) fetched),
      StorePhotoWork (pathOf s a) (inOrder (updates (objs s ! a)) fetched)] @
     (if thumbnailNeedsUpdate fetched (inOrder (updates (objs s ! a)) fetched)
      then [OnThumnailChange (photo_id (photo (objs s ! a)))] else [])"
  by (simp add: onFetched_def Let_def pathOf_def applyUpdates_inOrder)

lemma fetches_onFetched: "fetches (effects (onFetched s a fetched)) = fetches (effects s)"
  by (simp add: onFetched_effects fetches_append)

lemma fetches_onFailed: "fetches (effects (onFailed s a)) = fetches (effects s)"
  by (simp add: onFailed_fields fetches_append)

lemma fetches_updatePhotoWork:
  "fetches (effects (updatePhotoWork s ph up)) =
     fetches (effects s) @ (if pendingUpdates s (master ph) = None then [master ph] else [])"
proof (cases "pendingUpdates s (master ph)")
  case None
  then show ?thesis by (simp add: updatePhotoWork_new fetches_append)
next
  case (Some a)
  then show ?thesis by (simp add: updatePhotoWork_queued)
qed

lemma pendingUpdates_updatePhotoWork_other:
  assumes "master ph \<noteq> p"
  shows "pendingUpdates (updatePhotoWork s ph up) p = pendingUpdates s p"
proof (cases "pendingUpdates s (master ph)")
  case None
  then show ?thesis using assms by (simp add: updatePhotoWork_new)
next
  case (Some a)
  then show ?thesis by (simp add: updatePhotoWork_queued)
qed

lemma thumbnailNeedsUpdate_iff:
  "thumbnailNeedsUpdate before w \<longleftrightarrow>
     edits before \<noteq> edits w \<or>
     flagged w \<noteq> (if (case flagged w of None \<Rightarrow> False | Some v \<Rightarrow> truthy v)
                  then Some (JBool True) else None)"
  by (cases before; cases w) (auto simp: thumbnailNeedsUpdate_def split: option.splits)

subsection \<open>The invariants hold in every reachable state\<close>

lemma consistentD:
  assumes "consistent s" and "pendingUpdates s p = Some a"
  shows "a < length (objs s)" and "pathOf s a = p" and "chain (objs s ! a) = Fetching"
  using assms unfolding consistent_def by blast+

lemma registeredD:
  assumes "registered s" and "a < length (objs s)" and "chain (objs s ! a) = Fetching"
  shows "pendingUpdates s (pathOf s a) = Some a"
  using assms unfolding registered_def by blast

lemma consistent_init: "consistent init"
  by (simp add: consistent_def init_def)

lemma registered_init: "registered init"
  by (simp add: registered_def init_def)

lemma consistent_updatePhotoWork:
  assumes "consistent s"
  shows "consistent (updatePhotoWork s ph up)"
proof (cases "pendingUpdates s (master ph)")
  case None
  let ?s' = "s\<lparr>objs := objs s @ [\<lparr>photo = ph, updates = [up], chain = Fetching\<rparr>],
      pendingUpdates := (pendingUpdates s)(master ph \<mapsto> length (objs s)),
      effects := effects s @ [FetchPhotoWork (master ph)]\<rparr>"
  have "consistent ?s'"
    unfolding consistent_def
  proof (intro allI impI)
    fix p a
    assume "pendingUpdates ?s' p = Some a"
    then have "(p = master ph \<and> a = length (objs s)) \<or>
        (p \<noteq> master ph \<and> pendingUpdates s p = Some a)"
      by (auto split: if_splits)
    then show "a < length (objs ?s') \<and> pathOf ?s' a = p \<and> chain (objs ?s' ! a) = Fetching"
    proof
      assume "p = master ph \<and> a = length (objs s)"
      then show ?thesis by (simp add: pathOf_def)
    next
      assume "p \<noteq> master ph \<and> pendingUpdates s p = Some a"
      then have "a < length (objs s) \<and> pathOf s a = p \<and> chain (objs s ! a) = Fetching"
        using consistentD [OF assms] by blast
      then show ?thesis by (simp add: pathOf_def nth_append)
    qed
  qed
  then show ?thesis by (simp add: updatePhotoWork_new [OF None])
next
  case (Some a)
  let ?s' = "s\<lparr>objs := (objs s)[a := (objs s ! a)\<lparr>updates := updates (objs s ! a) @ [up]\<rparr>]\<rparr>"
  have "consistent ?s'"
    unfolding consistent_def
  proof (intro allI impI)
    fix p b
    assume "pendingUpdates ?s' p = Some b"
    then have "pendingUpdates s p = Some b" by simp
    then have "b < length (objs s) \<and> pathOf s b = p \<and> chain (objs s ! b) = Fetching"
      using consistentD [OF assms] by blast
    then show "b < length (objs ?s') \<and> pathOf ?s' b = p \<and> chain (objs ?s' ! b) = Fetching"
      by (cases "a = b") (simp_all add: pathOf_def)
  qed
  then show ?thesis by (simp add: updatePhotoWork_queued [OF Some])
qed

lemma consistent_settle:
  assumes "consistent s" and "c \<noteq> Fetching"
    and o: "objs s' = (objs s)[a := (objs s ! a)\<lparr>chain := c\<rparr>]"
    and r: "pendingUpdates s' = (pendingUpdates s)(pathOf s a := None) \<or>
            (pendingUpdates s' = pendingUpdates s \<and> awaiting s a Persisting)"
  shows "consistent s'"
  unfolding consistent_def
proof (intro allI impI)
  fix p b
  assume b: "pendingUpdates s' p = Some b"
  have old: "pendingUpdates s p = Some b" using b r by (auto split: if_splits)
  then have ob: "b < length (objs s)" "pathOf s b = p" "chain (objs s ! b) = Fetching"
    using consistentD [OF assms(1)] by blast+
  have "b \<noteq> a" using b r ob by (auto simp: awaiting_def split: if_splits)
  then show "b < length (objs s') \<and> pathOf s' b = p \<and> chain (objs s' ! b) = Fetching"
    using ob by (simp add: o pathOf_def)
qed

lemma consistent_step:
  assumes "consistent s" and "step s e = Some s'"
  shows "consistent s'"
proof (cases e)
  case (UpdatePhotoWork ph up)
  then show ?thesis using assms by (auto simp: consistent_updatePhotoWork)
next
  case (FetchResolved a fetched)
  then have "s' = onFetched s a fetched" using assms(2) by (simp split: if_splits)
  then show ?thesis
    using consistent_settle [OF assms(1), of Persisting s' a] by (simp add: onFetched_fields)
next
  case (FetchRejected a)
  then have "s' = onFailed s a" using assms(2) by (simp split: if_splits)
  then show ?thesis
    using consistent_settle [OF assms(1), of Settled s' a] by (simp add: onFailed_fields)
next
  case (PersistResolved a)
  then have "s' = onPersisted s a" "awaiting s a Persisting"
    using assms(2) by (simp_all split: if_splits)
  then show ?thesis
    using consistent_settle [OF assms(1), of Settled s' a] by (simp add: onPersisted_fields)
next
  case (PersistRejected a)
  then have "s' = onFailed s a" using assms(2) by (simp split: if_splits)
  then show ?thesis
    using consistent_settle [OF assms(1), of Settled s' a] by (simp add: onFailed_fields)
qed

lemma consistent_run:
  assumes "consistent s" and "run s evs = Some s'"
  shows "consistent s'"
  using assms
proof (induction evs arbitrary: s)
  case Nil
  then show ?case by simp
next
  case (Cons e evs)
  then obtain s1 where s1: "step s e = Some s1" "run s1 evs = Some s'"
    by (auto split: option.splits)
  show ?case using Cons.IH [OF consistent_step [OF Cons.prems(1) s1(1)] s1(2)] .
qed

lemma registered_updatePhotoWork:
  assumes "consistent s" and "registered s"
  shows "registered (updatePhotoWork s ph up)"
proof (cases "pendingUpdates s (master ph)")
  case None
  let ?s' = "s\<lparr>objs := objs s @ [\<lparr>photo = ph, updates = [up], chain = Fetching\<rparr>],
      pendingUpdates := (pendingUpdates s)(master ph \<mapsto> length (objs s)),
      effects := effects s @ [FetchPhotoWork (master ph)]\<rparr>"
  have "registered ?s'"
    unfolding registered_def
  proof (intro allI impI)
    fix a
    assume a: "a < length (objs ?s')" and f: "chain (objs ?s' ! a) = Fetching"
    show "pendingUpdates ?s' (pathOf ?s' a) = Some a"
    proof (cases "a = length (objs s)")
      case True
      then show ?thesis by (simp add: pathOf_def)
    next
      case False
      then have lt: "a < length (objs s)" using a by simp
      then have "chain (objs s ! a) = Fetching" using f by (simp add: nth_append)
      then have r: "pendingUpdates s (pathOf s a) = Some a"
        using registeredD [OF assms(2) lt] by simp
      then have "pathOf s a \<noteq> master ph" using None by auto
      then show ?thesis using r lt by (simp add: pathOf_def nth_append)
    qed
  qed
  then show ?thesis by (simp add: updatePhotoWork_new [OF None])
next
  case (Some b)
  let ?s' = "s\<lparr>objs := (objs s)[b := (objs s ! b)\<lparr>updates := updates (objs s ! b) @ [up]\<rparr>]\<rparr>"
  have "registered ?s'"
    unfolding registered_def
  proof (intro allI impI)
    fix a
    assume a: "a < length (objs ?s')" and f: "chain (objs ?s' ! a) = Fetching"
    have lt: "a < length (objs s)" using a by simp
    have "chain (objs s ! a) = Fetching" using f lt by (cases "a = b") simp_all
    then have "pendingUpdates s (pathOf s a) = Some a" using registeredD [OF assms(2) lt] by simp
    moreover have "pathOf ?s' a = pathOf s a" using lt by (cases "a = b") (simp_all add: pathOf_def)
    ultimately show "pendingUpdates ?s' (pathOf ?s' a) = Some a" by simp
  qed
  then show ?thesis by (simp add: updatePhotoWork_queued [OF Some])
qed

lemma registered_settle:
  assumes "registered s" and "c \<noteq> Fetching" and "a < length (objs s)"
    and o: "objs s' = (objs s)[a := (objs s ! a)\<lparr>chain := c\<rparr>]"
    and r: "(pendingUpdates s' = (pendingUpdates s)(pathOf s a := None) \<and> chain (objs s ! a) = Fetching)
          \<or> pendingUpdates s' = pendingUpdates s"
  shows "registered s'"
  unfolding registered_def
proof (intro allI impI)
  fix b
  assume b: "b < length (objs s')" and f: "chain (objs s' ! b) = Fetching"
  have lt: "b < length (objs s)" using b o by simp
  have ne: "b \<noteq> a" using f o assms(2,3) by auto
  then have fb: "chain (objs s ! b) = Fetching" and pb: "pathOf s' b = pathOf s b"
    using f o by (simp_all add: pathOf_def)
  have rb: "pendingUpdates s (pathOf s b) = Some b" using registeredD [OF assms(1) lt fb] .
  show "pendingUpdates s' (pathOf s' b) = Some b"
    using r
  proof
    assume *: "pendingUpdates s' = (pendingUpdates s)(pathOf s a := None) \<and> chain (objs s ! a) = Fetching"
    then have "pendingUpdates s (pathOf s a) = Some a"
      using registeredD [OF assms(1,3)] by simp
    then have "pathOf s b \<noteq> pathOf s a" using rb ne by auto
    then show ?thesis using * rb pb by simp
  next
    assume "pendingUpdates s' = pendingUpdates s"
    then show ?thesis using rb pb by simp
  qed
qed

lemma registered_step:
  assumes "consistent s" and "registered s" and "step s e = Some s'"
    and "\<not> isPersistRejected e"
  shows "registered s'"
proof (cases e)
  case (UpdatePhotoWork ph up)
  then show ?thesis using assms by (auto simp: registered_updatePhotoWork)
next
  case (FetchResolved a fetched)
  then have "s' = onFetched s a fetched" "awaiting s a Fetching"
    using assms(3) by (simp_all split: if_splits)
  then show ?thesis
    using registered_settle [OF assms(2), of Persisting a s']
    by (simp add: onFetched_fields awaiting_def)
next
  case (FetchRejected a)
  then have "s' = onFailed s a" "awaiting s a Fetching"
    using assms(3) by (simp_all split: if_splits)
  then show ?thesis
    using registered_settle [OF assms(2), of Settled a s']
    by (simp add: onFailed_fields awaiting_def)
next
  case (PersistResolved a)
  then have "s' = onPersisted s a" "awaiting s a Persisting"
    using assms(3) by (simp_all split: if_splits)
  then show ?thesis
    using registered_settle [OF assms(2), of Settled a s']
    by (simp add: onPersisted_fields awaiting_def)
next
  case (PersistRejected a)
  then show ?thesis using assms(4) by simp
qed

lemma registered_run:
  assumes "consistent s" and "registered s" and "run s evs = Some s'"
    and "\<forall>e \<in> set evs. \<not> isPersistRejected e"
  shows "registered s'"
  using assms
proof (induction evs arbitrary: s)
  case Nil
  then show ?case by simp
next
  case (Cons e evs)
  then obtain s1 where s1: "step s e = Some s1" "run s1 evs = Some s'"
    by (auto split: option.splits)
  have "consistent s1" using Cons.prems(1) s1(1) by (rule consistent_step)
  moreover have "registered s1" using Cons.prems(1,2) s1(1) Cons.prems(4) by (auto intro: registered_step)
  ultimately show ?case using Cons.IH s1(2) Cons.prems(4) by simp
qed

lemma filter_upt_eq:
  assumes "a < n"
  shows "filter (\<lambda>b. b = a) [0..<n] = [a]"
  using assms
proof (induction n)
  case 0
  then show ?case by simp
next
  case (Suc n)
  show ?case
  proof (cases "a = n")
    case True
    then have "filter (\<lambda>b. b = a) [0..<n] = []" by (simp add: filter_empty_conv)
    then show ?thesis using True by simp
  next
    case False
    then have "a < n" using Suc.prems by simp
    then show ?thesis using Suc.IH False by simp
  qed
qed

lemma outstanding_registry:
  assumes "consistent s" and "registered s"
  shows "outstanding s p = (case pendingUpdates s p of None \<Rightarrow> [] | Some a \<Rightarrow> [a])"
proof (cases "pendingUpdates s p")
  case None
  have "\<not> (chain (objs s ! a) = Fetching \<and> pathOf s a = p)" if "a < length (objs s)" for a
  proof
    assume "chain (objs s ! a) = Fetching \<and> pathOf s a = p"
    then have "pendingUpdates s p = Some a" using registeredD [OF assms(2) that] by auto
    then show False using None by simp
  qed
  then have "outstanding s p = []"
    unfolding outstanding_def filter_empty_conv by simp
  then show ?thesis using None by simp
next
  case (Some a)
  note a = consistentD [OF assms(1) Some]
  have "outstanding s p = filter (\<lambda>b. b = a) [0..<length (objs s)]"
    unfolding outstanding_def
  proof (rule filter_cong [OF refl])
    fix b
    assume "b \<in> set [0..<length (objs s)]"
    then have lt: "b < length (objs s)" by simp
    show "(chain (objs s ! b) = Fetching \<and> pathOf s b = p) = (b = a)"
    proof
      assume "chain (objs s ! b) = Fetching \<and> pathOf s b = p"
      then have "pendingUpdates s p = Some b" using registeredD [OF assms(2) lt] by auto
      then show "b = a" using Some by simp
    next
      assume "b = a"
      then show "chain (objs s ! b) = Fetching \<and> pathOf s b = p" using a by simp
    qed
  qed
  also have "\<dots> = [a]" using a(1) by (rule filter_upt_eq)
  finally show ?thesis using Some by simp
qed

subsection \<open>One slot and one fetch per path\<close>

text \<open>
  As long as no persistence step rejects, the registry and the fetches agree: at every
  point of every interleaving of \<^verbatim>\<open>updatePhotoWork\<close> calls, fetch resolutions, fetch
  rejections and successful completions of the persistence step, started from the empty
  registry, the fetches in flight for \<open>p\<close> are exactly the content of the slot of \<open>p\<close>,
  which, the registry being a map from path to object, is one object or none.
\<close>

lemma single_outstanding_fetch:
  assumes "run init evs = Some s" and "\<forall>e \<in> set evs. \<not> isPersistRejected e"
  shows "outstanding s p = (case pendingUpdates s p of None \<Rightarrow> [] | Some a \<Rightarrow> [a]) \<and>
    length (outstanding s p) \<le> 1"
proof -
  have c: "consistent s" using consistent_init assms(1) by (rule consistent_run)
  have r: "registered s" using consistent_init registered_init assms by (rule registered_run)
  show ?thesis by (simp add: outstanding_registry [OF c r] split: option.splits)
qed

lemma single_outstanding_fetch_example:
  "map_option effects (run init refetch) =
     Some [FetchPhotoWork ''/photos/a.jpg'',
           DispatchChangePhotoWork 1 \<lparr>flagged = None, edits = 1\<rparr>,
           StorePhotoWork ''/photos/a.jpg'' \<lparr>flagged = None, edits = 1\<rparr>,
           OnThumnailChange 1,
           FetchPhotoWork ''/photos/a.jpg''] \<and>
   pendingUpdates (the (run init refetch)) ''/photos/a.jpg'' = Some 1 \<and>
   outstanding (the (run init refetch)) ''/photos/a.jpg'' = [1] \<and>
   length (outstanding (the (run init refetch)) ''/photos/a.jpg'') \<le> 1"
proof -
  let ?s = "\<lparr>objs = [\<lparr>photo = photoA, updates = [setEdits 1], chain = Persisting\<rparr>,
                   \<lparr>photo = photoA, updates = [setEdits (2::int)], chain = Fetching\<rparr>],
           pendingUpdates = [''/photos/a.jpg'' \<mapsto> 1],
           effects = [FetchPhotoWork ''/photos/a.jpg'',
                      DispatchChangePhotoWork 1 \<lparr>flagged = None, edits = 1\<rparr>,
                      StorePhotoWork ''/photos/a.jpg'' \<lparr>flagged = None, edits = 1\<rparr>,
                      OnThumnailChange 1,
                      FetchPhotoWork ''/photos/a.jpg'']\<rparr>"
  have r: "run init refetch = Some ?s" by (simp add: refetch_def queue_simps)
  have n: "\<forall>e \<in> set refetch. \<not> isPersistRejected e" by (simp add: refetch_def)
  show ?thesis
    using single_outstanding_fetch [OF r n, of "''/photos/a.jpg''"] by (simp add: r)
qed

text \<open>
  C2: at every point the registry holds at most one entry per photo path and at most one
  fetch of the PhotoWork of a path is in flight. The code breaks the second part. The
  \<^verbatim>\<open>catch\<close> callback is attached after the \<^verbatim>\<open>then\<close> callback, so a rejection of
  \<^verbatim>\<open>storePhotoWork\<close> or \<^verbatim>\<open>onThumnailChange\<close> also runs \<^verbatim>\<open>delete pendingUpdates[photoPath]\<close>. By
  then the slot may belong to a later cycle of the same path. Here a call starts the fetch
  of object 0, the fetch resolves, a second call starts the fetch of object 1, the
  persistence step of object 0 rejects and clears the slot of object 1, and a third call
  starts the fetch of object 2: the fetches of objects 1 and 2, of the same path, are
  both in flight.
\<close>

theorem persist_rejection_reopens_slot:
  "run init reopen \<noteq> None \<and>
   outstanding (the (run init reopen)) ''/photos/a.jpg'' = [1, 2] \<and>
   length (outstanding (the (run init reopen)) ''/photos/a.jpg'') = 2 \<and>
   pendingUpdates (the (run init reopen)) ''/photos/a.jpg'' = Some 2 \<and>
   fetches (effects (the (run init reopen))) =
     [''/photos/a.jpg'', ''/photos/a.jpg'', ''/photos/a.jpg'']"
  by (simp add: reopen_def queue_simps outstanding_def eval_nat_numeral)

subsection \<open>Isolation across paths\<close>

lemma step_no_call:
  assumes "step s e = Some s'" and "callPaths [e] = []"
  shows "fetches (effects s') = fetches (effects s)"
    and "pendingUpdates s p = None \<Longrightarrow> pendingUpdates s' p = None"
proof -
  have "fetches (effects s') = fetches (effects s) \<and>
    (pendingUpdates s p = None \<longrightarrow> pendingUpdates s' p = None)"
  proof (cases e)
    case (UpdatePhotoWork ph up)
    then show ?thesis using assms(2) by simp
  next
    case (FetchResolved a fetched)
    then have "s' = onFetched s a fetched" using assms(1) by (simp split: if_splits)
    then show ?thesis by (simp add: fetches_onFetched onFetched_fields)
  next
    case (FetchRejected a)
    then have "s' = onFailed s a" using assms(1) by (simp split: if_splits)
    then show ?thesis by (simp add: fetches_onFailed onFailed_fields(2))
  next
    case (PersistResolved a)
    then have "s' = onPersisted s a" using assms(1) by (simp split: if_splits)
    then show ?thesis by (simp add: onPersisted_fields)
  next
    case (PersistRejected a)
    then have "s' = onFailed s a" using assms(1) by (simp split: if_splits)
    then show ?thesis by (simp add: fetches_onFailed onFailed_fields(2))
  qed
  then show "fetches (effects s') = fetches (effects s)"
    and "pendingUpdates s p = None \<Longrightarrow> pendingUpdates s' p = None" by simp_all
qed

lemma run_distinct_calls:
  assumes "run s evs = Some s'" and "distinct (callPaths evs)"
    and "\<forall>p \<in> set (callPaths evs). pendingUpdates s p = None"
  shows "fetches (effects s') = fetches (effects s) @ callPaths evs"
  using assms
proof (induction evs arbitrary: s)
  case Nil
  then show ?case by simp
next
  case (Cons e evs)
  then obtain s1 where s1: "step s e = Some s1" "run s1 evs = Some s'"
    by (auto split: option.splits)
  show ?case
  proof (cases e)
    case (UpdatePhotoWork ph up)
    have s1': "s1 = updatePhotoWork s ph up" using s1(1) UpdatePhotoWork by simp
    have cp: "callPaths (e # evs) = master ph # callPaths evs" using UpdatePhotoWork by simp
    have none: "pendingUpdates s (master ph) = None" using Cons.prems(3) cp by simp
    have d: "distinct (callPaths evs)" "master ph \<notin> set (callPaths evs)"
      using Cons.prems(2) cp by simp_all
    have "\<forall>p \<in> set (callPaths evs). pendingUpdates s1 p = None"
    proof
      fix p assume p: "p \<in> set (callPaths evs)"
      then have "master ph \<noteq> p" using d(2) by auto
      then have "pendingUpdates s1 p = pendingUpdates s p"
        unfolding s1' by (rule pendingUpdates_updatePhotoWork_other)
      then show "pendingUpdates s1 p = None" using Cons.prems(3) cp p by simp
    qed
    then have "fetches (effects s') = fetches (effects s1) @ callPaths evs"
      using Cons.IH [OF s1(2) d(1)] by simp
    then show ?thesis by (simp add: s1' fetches_updatePhotoWork none cp)
  next
    case (FetchResolved a fetched)
    then have nc: "callPaths [e] = []" and cp: "callPaths (e # evs) = callPaths evs" by simp_all
    have "\<forall>p \<in> set (callPaths evs). pendingUpdates s1 p = None"
      using step_no_call(2) [OF s1(1) nc] Cons.prems(3) cp by simp
    then have "fetches (effects s') = fetches (effects s1) @ callPaths evs"
      using Cons.IH [OF s1(2)] Cons.prems(2) cp by simp
    then show ?thesis using step_no_call(1) [OF s1(1) nc] cp by simp
  next
    case (FetchRejected a)
    then have nc: "callPaths [e] = []" and cp: "callPaths (e # evs) = callPaths evs" by simp_all
    have "\<forall>p \<in> set (callPaths evs). pendingUpdates s1 p = None"
      using step_no_call(2) [OF s1(1) nc] Cons.prems(3) cp by simp
    then have "fetches (effects s') = fetches (effects s1) @ callPaths evs"
      using Cons.IH [OF s1(2)] Cons.prems(2) cp by simp
    then show ?thesis using step_no_call(1) [OF s1(1) nc] cp by simp
  next
    case (PersistResolved a)
    then have nc: "callPaths [e] = []" and cp: "callPaths (e # evs) = callPaths evs" by simp_all
    have "\<forall>p \<in> set (callPaths evs). pendingUpdates s1 p = None"
      using step_no_call(2) [OF s1(1) nc] Cons.prems(3) cp by simp
    then have "fetches (effects s') = fetches (effects s1) @ callPaths evs"
      using Cons.IH [OF s1(2)] Cons.prems(2) cp by simp
    then show ?thesis using step_no_call(1) [OF s1(1) nc] cp by simp
  next
    case (PersistRejected a)
    then have nc: "callPaths [e] = []" and cp: "callPaths (e # evs) = callPaths evs" by simp_all
    have "\<forall>p \<in> set (callPaths evs). pendingUpdates s1 p = None"
      using step_no_call(2) [OF s1(1) nc] Cons.prems(3) cp by simp
    then have "fetches (effects s') = fetches (effects s1) @ callPaths evs"
      using Cons.IH [OF s1(2)] Cons.prems(2) cp by simp
    then show ?thesis using step_no_call(1) [OF s1(1) nc] cp by simp
  qed
qed

text \<open>
  C6: two \<^verbatim>\<open>updatePhotoWork\<close> calls for two different photo paths, neither of which has
  a fetch registered when the trace starts, trigger two fetches, one per path, in the order
  of the calls, whatever promise settlements happen before, between and after the two calls.
\<close>

theorem isolation_across_paths:
  assumes "run s evs = Some s'"
    and "callPaths evs = [p, q]" and "p \<noteq> q"
    and "pendingUpdates s p = None" and "pendingUpdates s q = None"
  shows "fetches (effects s') = fetches (effects s) @ [p, q]"
  using run_distinct_calls [OF assms(1)] assms(2-5) by simp

theorem isolation_across_paths_witness:
  "callPaths twoPaths = [''/photos/a.jpg'', ''/photos/b.jpg''] \<and>
   ''/photos/a.jpg'' \<noteq> ''/photos/b.jpg'' \<and>
   pendingUpdates (init :: int state) ''/photos/a.jpg'' = None \<and>
   pendingUpdates (init :: int state) ''/photos/b.jpg'' = None \<and>
   run init twoPaths \<noteq> None \<and>
   fetches (effects (the (run init twoPaths))) = [''/photos/a.jpg'', ''/photos/b.jpg'']"
proof -
  obtain s where r: "run init twoPaths = Some s" by (simp add: twoPaths_def queue_simps)
  have c: "callPaths twoPaths = [''/photos/a.jpg'', ''/photos/b.jpg'']"
    by (simp add: twoPaths_def photoA_def photoB_def)
  have n: "''/photos/a.jpg'' \<noteq> ''/photos/b.jpg''" by simp
  have i: "pendingUpdates (init :: int state) ''/photos/a.jpg'' = None"
    "pendingUpdates (init :: int state) ''/photos/b.jpg'' = None" by (simp_all add: init_def)
  have "fetches (effects s) = [''/photos/a.jpg'', ''/photos/b.jpg'']"
    using isolation_across_paths [OF r c n i] by (simp add: init_def)
  then show ?thesis using r c i by simp
qed

subsection \<open>Coalescing\<close>

lemma objs_updatePhotoWork_other:
  assumes "consistent s" and "master ph \<noteq> p" and "pendingUpdates s p = Some a"
  shows "objs (updatePhotoWork s ph up) ! a = objs s ! a"
proof (cases "pendingUpdates s (master ph)")
  case None
  then show ?thesis
    using consistentD(1) [OF assms(1,3)] by (simp add: updatePhotoWork_new nth_append)
next
  case (Some b)
  have "pathOf s b = master ph" using consistentD(2) [OF assms(1) Some] .
  moreover have "pathOf s a = p" using consistentD(2) [OF assms(1,3)] .
  ultimately have "b \<noteq> a" using assms(2) by auto
  then show ?thesis by (simp add: updatePhotoWork_queued [OF Some])
qed

lemma step_other_pending:
  assumes "consistent s" and "step s e = Some s'" and "\<not> clearsSlot p s e"
    and "callsFor p [e] = []" and "pendingUpdates s p = Some a"
  shows "pendingUpdates s' p = Some a \<and> objs s' ! a = objs s ! a \<and>
    count_list (fetches (effects s')) p = count_list (fetches (effects s)) p"
proof -
  note a = consistentD [OF assms(1,5)]
  show ?thesis
  proof (cases e)
    case (UpdatePhotoWork ph up)
    then have ne: "master ph \<noteq> p" using assms(4) by (simp split: if_splits)
    have s': "s' = updatePhotoWork s ph up" using assms(2) UpdatePhotoWork by simp
    show ?thesis
      unfolding s'
      using ne assms(5)
      by (simp add: pendingUpdates_updatePhotoWork_other objs_updatePhotoWork_other [OF assms(1)]
          fetches_updatePhotoWork)
  next
    case (FetchResolved b fetched)
    then have s': "s' = onFetched s b fetched" using assms(2) by (simp split: if_splits)
    have "pathOf s b \<noteq> p" using assms(3) FetchResolved by simp
    moreover from this have "b \<noteq> a" using a(2) by auto
    ultimately show ?thesis
      unfolding s' using assms(5) by (simp add: onFetched_fields fetches_onFetched)
  next
    case (FetchRejected b)
    then have s': "s' = onFailed s b" using assms(2) by (simp split: if_splits)
    have "pathOf s b \<noteq> p" using assms(3) FetchRejected by simp
    moreover from this have "b \<noteq> a" using a(2) by auto
    ultimately show ?thesis
      unfolding s' using assms(5) by (simp add: onFailed_fields(1,2) fetches_onFailed)
  next
    case (PersistResolved b)
    then have s': "s' = onPersisted s b" and "awaiting s b Persisting"
      using assms(2) by (simp_all split: if_splits)
    then have "b \<noteq> a" using a(3) by (auto simp: awaiting_def)
    then show ?thesis
      unfolding s' using assms(5) by (simp add: onPersisted_fields)
  next
    case (PersistRejected b)
    then have s': "s' = onFailed s b" using assms(2) by (simp split: if_splits)
    have "pathOf s b \<noteq> p" using assms(3) PersistRejected by simp
    moreover from this have "b \<noteq> a" using a(2) by auto
    ultimately show ?thesis
      unfolding s' using assms(5) by (simp add: onFailed_fields(1,2) fetches_onFailed)
  qed
qed

lemma step_other_idle:
  assumes "step s e = Some s'" and "callsFor p [e] = []" and "pendingUpdates s p = None"
  shows "pendingUpdates s' p = None \<and>
    count_list (fetches (effects s')) p = count_list (fetches (effects s)) p"
proof (cases e)
  case (UpdatePhotoWork ph up)
  then have ne: "master ph \<noteq> p" using assms(2) by (simp split: if_splits)
  have s': "s' = updatePhotoWork s ph up" using assms(1) UpdatePhotoWork by simp
  show ?thesis
    unfolding s' using ne assms(3)
    by (simp add: pendingUpdates_updatePhotoWork_other fetches_updatePhotoWork)
next
  case (FetchResolved b fetched)
  then have "callPaths [e] = []" by simp
  then show ?thesis using step_no_call [OF assms(1)] assms(3) by simp
next
  case (FetchRejected b)
  then have "callPaths [e] = []" by simp
  then show ?thesis using step_no_call [OF assms(1)] assms(3) by simp
next
  case (PersistResolved b)
  then have "callPaths [e] = []" by simp
  then show ?thesis using step_no_call [OF assms(1)] assms(3) by simp
next
  case (PersistRejected b)
  then have "callPaths [e] = []" by simp
  then show ?thesis using step_no_call [OF assms(1)] assms(3) by simp
qed

lemma step_call_pending:
  assumes "consistent s" and "master ph = p" and "pendingUpdates s p = Some a"
  shows "pendingUpdates (updatePhotoWork s ph up) p = Some a \<and>
    objs (updatePhotoWork s ph up) ! a = (objs s ! a)\<lparr>updates := updates (objs s ! a) @ [up]\<rparr> \<and>
    fetches (effects (updatePhotoWork s ph up)) = fetches (effects s)"
proof -
  have r: "pendingUpdates s (master ph) = Some a" using assms(2,3) by simp
  show ?thesis
    using consistentD(1) [OF assms(1,3)] assms(3)
    by (simp add: updatePhotoWork_queued [OF r])
qed

lemma callsFor_Cons:
  "callsFor p (e # es) = callsFor p [e] @ callsFor p es"
  by (cases e) simp_all

lemma run_pending:
  assumes "consistent s" and "pendingUpdates s p = Some a"
    and "undisturbed p s evs" and "run s evs = Some s1"
  shows "pendingUpdates s1 p = Some a \<and>
    objs s1 ! a = (objs s ! a)\<lparr>updates := updates (objs s ! a) @ map snd (callsFor p evs)\<rparr> \<and>
    count_list (fetches (effects s1)) p = count_list (fetches (effects s)) p"
  using assms
proof (induction evs arbitrary: s)
  case Nil
  then show ?case by simp
next
  case (Cons e evs)
  then obtain s' where s': "step s e = Some s'" "run s' evs = Some s1"
    by (auto split: option.splits)
  have u: "\<not> clearsSlot p s e" "undisturbed p s' evs" using Cons.prems(3) s'(1) by simp_all
  have c': "consistent s'" using Cons.prems(1) s'(1) by (rule consistent_step)
  show ?case
  proof (cases "callsFor p [e] = []")
    case True
    note f = step_other_pending [OF Cons.prems(1) s'(1) u(1) True Cons.prems(2)]
    have "pendingUpdates s' p = Some a" using f by simp
    note ih = Cons.IH [OF c' this u(2) s'(2)]
    show ?thesis using ih f True by (simp add: callsFor_Cons [of p e evs])
  next
    case False
    then obtain ph up where e: "e = UpdatePhotoWork ph up" and m: "master ph = p"
      by (cases e) (simp_all split: if_splits)
    have s'': "s' = updatePhotoWork s ph up" using s'(1) e by simp
    note f = step_call_pending [OF Cons.prems(1) m Cons.prems(2), of up]
    have "pendingUpdates s' p = Some a" using f s'' by simp
    note ih = Cons.IH [OF c' this u(2) s'(2)]
    show ?thesis using ih f by (simp add: s'' e m)
  qed
qed

lemma run_idle:
  assumes "consistent s" and "pendingUpdates s p = None"
    and "undisturbed p s evs" and "run s evs = Some s1" and "callsFor p evs = c # cs"
  shows "\<exists>a. pendingUpdates s1 p = Some a \<and>
    objs s1 ! a = \<lparr>photo = fst c, updates = map snd (c # cs), chain = Fetching\<rparr> \<and>
    count_list (fetches (effects s1)) p = count_list (fetches (effects s)) p + 1"
  using assms
proof (induction evs arbitrary: s)
  case Nil
  then show ?case by simp
next
  case (Cons e evs)
  then obtain s' where s': "step s e = Some s'" "run s' evs = Some s1"
    by (auto split: option.splits)
  have u: "\<not> clearsSlot p s e" "undisturbed p s' evs" using Cons.prems(3) s'(1) by simp_all
  have c': "consistent s'" using Cons.prems(1) s'(1) by (rule consistent_step)
  show ?case
  proof (cases "callsFor p [e] = []")
    case True
    note f = step_other_idle [OF s'(1) True Cons.prems(2)]
    have n: "pendingUpdates s' p = None" using f by simp
    have cf: "callsFor p evs = c # cs" using Cons.prems(5) True by (simp add: callsFor_Cons [of p e evs])
    note ih = Cons.IH [OF c' n u(2) s'(2) cf]
    show ?thesis using ih f by simp
  next
    case False
    then obtain ph up where e: "e = UpdatePhotoWork ph up" and m: "master ph = p"
      by (cases e) (simp_all split: if_splits)
    have s'': "s' = updatePhotoWork s ph up" using s'(1) e by simp
    have none: "pendingUpdates s (master ph) = None" using m Cons.prems(2) by simp
    have c: "c = (ph, up)" "callsFor p evs = cs" using Cons.prems(5) e m by simp_all
    let ?a = "length (objs s)"
    have reg: "pendingUpdates s' p = Some ?a"
      and obj: "objs s' ! ?a = \<lparr>photo = ph, updates = [up], chain = Fetching\<rparr>"
      and fe: "fetches (effects s') = fetches (effects s) @ [p]"
      unfolding s'' using m by (simp_all add: updatePhotoWork_new [OF none] fetches_append)
    note r = run_pending [OF c' reg u(2) s'(2)]
    show ?thesis using r obj fe c by simp
  qed
qed

text \<open>
  C1: take any reachable state in which no fetch is registered for path \<open>p\<close>, and any
  trace from it that is undisturbed for \<open>p\<close> (the fetch of \<open>p\<close> has not settled) and
  contains N > 0 calls of \<^verbatim>\<open>updatePhotoWork\<close> for \<open>p\<close>, interleaved with any other events. Then
  \<^verbatim>\<open>fetchPhotoWork\<close> is called exactly once for \<open>p\<close>, and when that fetch resolves, the
  PhotoWork dispatched and stored is the fetched one with all N mutations applied in the
  order the calls were submitted.
\<close>

theorem coalescing:
  assumes "run init pre = Some s" and "pendingUpdates s p = None"
    and "undisturbed p s evs" and "run s evs = Some s1" and "callsFor p evs = c # cs"
  shows "count_list (fetches (effects s1)) p = count_list (fetches (effects s)) p + 1 \<and>
    (\<exists>a s2. pendingUpdates s1 p = Some a \<and>
       step s1 (FetchResolved a fetched) = Some s2 \<and>
       effects s2 = effects s1 @
         [DispatchChangePhotoWork (photo_id (fst c)) (inOrder (map snd (c # cs)) fetched),
          StorePhotoWork p (inOrder (map snd (c # cs)) fetched)] @
         (if thumbnailNeedsUpdate fetched (inOrder (map snd (c # cs)) fetched)
          then [OnThumnailChange (photo_id (fst c))] else []))"
proof -
  have cs: "consistent s" using consistent_init assms(1) by (rule consistent_run)
  obtain a where a: "pendingUpdates s1 p = Some a"
    "objs s1 ! a = \<lparr>photo = fst c, updates = map snd (c # cs), chain = Fetching\<rparr>"
    "count_list (fetches (effects s1)) p = count_list (fetches (effects s)) p + 1"
    using run_idle [OF cs assms(2-5)] by blast
  have c1: "consistent s1" using cs assms(4) by (rule consistent_run)
  note d = consistentD [OF c1 a(1)]
  have aw: "awaiting s1 a Fetching" using d by (simp add: awaiting_def)
  have "step s1 (FetchResolved a fetched) = Some (onFetched s1 a fetched)" using aw by simp
  moreover have "effects (onFetched s1 a fetched) = effects s1 @
         [DispatchChangePhotoWork (photo_id (fst c)) (inOrder (map snd (c # cs)) fetched),
          StorePhotoWork p (inOrder (map snd (c # cs)) fetched)] @
         (if thumbnailNeedsUpdate fetched (inOrder (map snd (c # cs)) fetched)
          then [OnThumnailChange (photo_id (fst c))] else [])"
    unfolding onFetched_effects using a(2) d(2) by simp
  ultimately show ?thesis using a(1,3) by blast
qed

theorem coalescing_witness:
  "run init [] = Some (init :: int state) \<and>
   pendingUpdates (init :: int state) ''/photos/a.jpg'' = None \<and>
   undisturbed ''/photos/a.jpg'' init burst \<and>
   callsFor ''/photos/a.jpg'' burst = [(photoA, setEdits 7), (photoA, flagMutation True)] \<and>
   fetches (effects (the (run init burst))) = [''/photos/a.jpg'', ''/photos/b.jpg''] \<and>
   pendingUpdates (the (run init burst)) ''/photos/a.jpg'' = Some 0 \<and>
   map_option effects (step (the (run init burst)) (FetchResolved 0 plain)) =
     Some [FetchPhotoWork ''/photos/a.jpg'', FetchPhotoWork ''/photos/b.jpg'',
           DispatchChangePhotoWork 1 \<lparr>flagged = Some (JBool True), edits = 7\<rparr>,
           StorePhotoWork ''/photos/a.jpg'' \<lparr>flagged = Some (JBool True), edits = 7\<rparr>,
           OnThumnailChange 1]"
proof -
  let ?p = "''/photos/a.jpg''"
  let ?s1 = "\<lparr>objs = [\<lparr>photo = photoA, updates = [setEdits 7, flagMutation True], chain = Fetching\<rparr>,
                    \<lparr>photo = photoB, updates = [setEdits 2], chain = Fetching\<rparr>],
            pendingUpdates = [?p \<mapsto> 0, ''/photos/b.jpg'' \<mapsto> 1],
            effects = [FetchPhotoWork ?p, FetchPhotoWork ''/photos/b.jpg'']\<rparr> :: int state"
  have h1: "run init [] = Some (init :: int state)" by simp
  have h2: "pendingUpdates (init :: int state) ?p = None" by (simp add: init_def)
  have h3: "undisturbed ?p init burst"
    by (simp add: burst_def queue_simps)
  have h4: "run init burst = Some ?s1"
    by (simp add: burst_def init_def updatePhotoWork_def Let_def photoA_def photoB_def)
  have h5: "callsFor ?p burst = [(photoA, setEdits 7), (photoA, flagMutation True)]"
    by (simp add: burst_def photoA_def photoB_def)
  obtain a s2 where s2: "pendingUpdates ?s1 ?p = Some a"
    "step ?s1 (FetchResolved a plain) = Some s2"
    "effects s2 = effects ?s1 @
       [DispatchChangePhotoWork (photo_id (fst (photoA, setEdits (7::int))))
          (inOrder (map snd [(photoA, setEdits 7), (photoA, flagMutation True)]) plain),
        StorePhotoWork ?p
          (inOrder (map snd [(photoA, setEdits 7), (photoA, flagMutation True)]) plain)] @
       (if thumbnailNeedsUpdate plain
             (inOrder (map snd [(photoA, setEdits 7), (photoA, flagMutation True)]) plain)
        then [OnThumnailChange (photo_id (fst (photoA, setEdits (7::int))))] else [])"
    using coalescing [OF h1 h2 h3 h4 h5, of plain] by blast
  have a: "a = 0" using s2(1) by simp
  have e: "effects s2 = [FetchPhotoWork ?p, FetchPhotoWork ''/photos/b.jpg'',
           DispatchChangePhotoWork 1 \<lparr>flagged = Some (JBool True), edits = 7\<rparr>,
           StorePhotoWork ?p \<lparr>flagged = Some (JBool True), edits = 7\<rparr>,
           OnThumnailChange 1]"
    using s2(3)
    by (simp add: setEdits_def flagMutation_def plain_def photoA_def thumbnailNeedsUpdate_def)
  show ?thesis
    using h1 h2 h3 h5 s2(2) e by (simp add: h4 a)
qed

subsection \<open>Fetch failure\<close>

lemma run_no_calls_idle:
  assumes "run s evs = Some s'" and "callsFor p evs = []" and "pendingUpdates s p = None"
  shows "pendingUpdates s' p = None"
  using assms
proof (induction evs arbitrary: s)
  case Nil
  then show ?case by simp
next
  case (Cons e evs)
  then obtain s1 where s1: "step s e = Some s1" "run s1 evs = Some s'"
    by (auto split: option.splits)
  have c: "callsFor p [e] = []" "callsFor p evs = []"
    using Cons.prems(2) callsFor_Cons [of p e evs] by simp_all
  have "pendingUpdates s1 p = None" using step_other_idle [OF s1(1) c(1) Cons.prems(3)] by simp
  then show ?case using Cons.IH [OF s1(2) c(2)] by simp
qed

text \<open>
  C3: if the fetch of the PhotoWork of a path rejects, the only effect is the error
  message: no mutation is applied, nothing is dispatched, \<^verbatim>\<open>storePhotoWork\<close> is not called. The
  registry slot of the path is empty afterwards and stays empty until the next
  \<^verbatim>\<open>updatePhotoWork\<close> call for that path, which creates a new object holding only its own
  mutation, registers it and starts a new fetch.
\<close>

theorem fetch_failure_clears:
  assumes "awaiting s a Fetching"
    and "run (onFailed s a) evs = Some s1" and "callsFor (pathOf s a) evs = []"
    and "master ph = pathOf s a"
  shows "step s (FetchRejected a) = Some (onFailed s a) \<and>
    effects (onFailed s a) = effects s @ [ConsoleError (pathOf s a)] \<and>
    pendingUpdates (onFailed s a) (pathOf s a) = None \<and>
    pendingUpdates s1 (pathOf s a) = None \<and>
    effects (updatePhotoWork s1 ph up) = effects s1 @ [FetchPhotoWork (pathOf s a)] \<and>
    pendingUpdates (updatePhotoWork s1 ph up) (pathOf s a) = Some (length (objs s1)) \<and>
    objs (updatePhotoWork s1 ph up) ! length (objs s1) =
      \<lparr>photo = ph, updates = [up], chain = Fetching\<rparr>"
proof -
  have n: "pendingUpdates (onFailed s a) (pathOf s a) = None" by (simp add: onFailed_fields)
  have n1: "pendingUpdates s1 (master ph) = None"
    using run_no_calls_idle [OF assms(2,3) n] assms(4) by simp
  show ?thesis
    using assms(1) n n1 assms(4)
    by (simp add: onFailed_fields updatePhotoWork_new [OF n1])
qed

theorem fetch_failure_clears_witness:
  "awaiting fetchingA 0 Fetching \<and>
   run (onFailed fetchingA 0) otherCall \<noteq> None \<and>
   callsFor (pathOf fetchingA 0) otherCall = [] \<and>
   master photoA = pathOf fetchingA 0 \<and>
   step fetchingA (FetchRejected 0) = Some (onFailed fetchingA 0) \<and>
   effects (onFailed fetchingA 0) =
     [FetchPhotoWork ''/photos/a.jpg'', ConsoleError ''/photos/a.jpg''] \<and>
   pendingUpdates (onFailed fetchingA 0) ''/photos/a.jpg'' = None \<and>
   effects (updatePhotoWork (the (run (onFailed fetchingA 0) otherCall)) photoA (setEdits 3)) =
     [FetchPhotoWork ''/photos/a.jpg'', ConsoleError ''/photos/a.jpg'',
      FetchPhotoWork ''/photos/b.jpg'', FetchPhotoWork ''/photos/a.jpg''] \<and>
   pendingUpdates (updatePhotoWork (the (run (onFailed fetchingA 0) otherCall)) photoA (setEdits 3))
     ''/photos/a.jpg'' = Some 2 \<and>
   objs (updatePhotoWork (the (run (onFailed fetchingA 0) otherCall)) photoA (setEdits 3)) ! 2 =
     \<lparr>photo = photoA, updates = [setEdits 3], chain = Fetching\<rparr>"
proof -
  have h1: "awaiting fetchingA 0 Fetching" by (simp add: fetchingA_def queue_simps)
  obtain s1 where h2: "run (onFailed fetchingA 0) otherCall = Some s1"
    by (simp add: otherCall_def)
  have p: "pathOf fetchingA 0 = ''/photos/a.jpg''" by (simp add: fetchingA_def queue_simps)
  have h3: "callsFor (pathOf fetchingA 0) otherCall = []" by (simp add: p otherCall_def photoB_def)
  have h4: "master photoA = pathOf fetchingA 0" by (simp add: p photoA_def)
  have e: "effects s1 = [FetchPhotoWork ''/photos/a.jpg'', ConsoleError ''/photos/a.jpg'',
      FetchPhotoWork ''/photos/b.jpg'']" and l: "length (objs s1) = 2"
    using h2 by (auto simp: otherCall_def fetchingA_def queue_simps)
  have f: "effects fetchingA = [FetchPhotoWork ''/photos/a.jpg'']"
    by (simp add: fetchingA_def queue_simps)
  show ?thesis
    using fetch_failure_clears [OF h1 h2 h3 h4, of "setEdits 3"] h1 h3 h4
    by (simp add: h2 p e l f)
qed

subsection \<open>Thumbnail invalidation\<close>

text \<open>
  C4: if the PhotoWork after all queued mutations differs from the fetched one at most
  in the presence of the \<^verbatim>\<open>flagged\<close> marker (the marker being, as \<^verbatim>\<open>storeFlagged\<close> writes it,
  \<^verbatim>\<open>true\<close> or absent), then \<^verbatim>\<open>thumbnailNeedsUpdate\<close> is false and the cycle dispatches and
  stores the PhotoWork without calling \<^verbatim>\<open>onThumnailChange\<close>.
\<close>

theorem flag_only_no_thumbnail:
  assumes "awaiting s a Fetching"
    and "edits (inOrder (updates (objs s ! a)) fetched) = edits fetched"
    and "flagged (inOrder (updates (objs s ! a)) fetched) \<in> {None, Some (JBool True)}"
  shows "\<not> thumbnailNeedsUpdate fetched (inOrder (updates (objs s ! a)) fetched) \<and>
    (\<exists>s'. step s (FetchResolved a fetched) = Some s' \<and>
       effects s' = effects s @
         [DispatchChangePhotoWork (photo_id (photo (objs s ! a)))
            (inOrder (updates (objs s ! a)) fetched),
          StorePhotoWork (pathOf s a) (inOrder (updates (objs s ! a)) fetched)])"
proof -
  have t: "\<not> thumbnailNeedsUpdate fetched (inOrder (updates (objs s ! a)) fetched)"
    using assms(2,3) by (auto simp: thumbnailNeedsUpdate_iff)
  then show ?thesis using assms(1) by (simp add: onFetched_effects)
qed

theorem flag_only_no_thumbnail_witness:
  "awaiting flaggingA 0 Fetching \<and>
   inOrder (updates (objs flaggingA ! 0)) plain = \<lparr>flagged = Some (JBool True), edits = 0\<rparr> \<and>
   \<not> thumbnailNeedsUpdate plain \<lparr>flagged = Some (JBool True), edits = 0\<rparr> \<and>
   step flaggingA (FetchResolved 0 plain) \<noteq> None \<and>
   effects (the (step flaggingA (FetchResolved 0 plain))) =
     [FetchPhotoWork ''/photos/a.jpg'',
      DispatchChangePhotoWork 1 \<lparr>flagged = Some (JBool True), edits = 0\<rparr>,
      StorePhotoWork ''/photos/a.jpg'' \<lparr>flagged = Some (JBool True), edits = 0\<rparr>]"
proof -
  have h1: "awaiting flaggingA 0 Fetching" by (simp add: flaggingA_def queue_simps)
  have w: "inOrder (updates (objs flaggingA ! 0)) plain = \<lparr>flagged = Some (JBool True), edits = 0\<rparr>"
    by (simp add: flaggingA_def queue_simps)
  have h2: "edits (inOrder (updates (objs flaggingA ! 0)) plain) = edits plain"
    by (simp add: w) (simp add: plain_def)
  have h3: "flagged (inOrder (updates (objs flaggingA ! 0)) plain) \<in> {None, Some (JBool True)}"
    by (simp add: w)
  have e: "effects flaggingA = [FetchPhotoWork ''/photos/a.jpg'']"
    "photo_id (photo (objs flaggingA ! 0)) = 1" "pathOf flaggingA 0 = ''/photos/a.jpg''"
    by (simp_all add: flaggingA_def queue_simps)
  show ?thesis
    using flag_only_no_thumbnail [OF h1 h2 h3] h1
    by (auto simp: w e)
qed

text \<open>
  The comparison is by value, and the normalisation writes \<^verbatim>\<open>true\<close>: a marker holding another
  truthy value, which the controller never writes, would count as a change.
\<close>

lemma truthy_marker_compared_by_value:
  "thumbnailNeedsUpdate plain \<lparr>flagged = Some (JNum 1), edits = 0\<rparr>"
  by (simp add: thumbnailNeedsUpdate_def plain_def)

text \<open>
  C5: as stated (some queued mutation changes a property other than \<^verbatim>\<open>flagged\<close>
  implies \<^verbatim>\<open>thumbnailNeedsUpdate\<close>), the claim fails: the comparison is between the fetched
  PhotoWork and the final one, so two queued mutations that cancel each other leave
  \<^verbatim>\<open>thumbnailNeedsUpdate\<close> false, and \<^verbatim>\<open>onThumnailChange\<close> is not called.
\<close>

theorem cancelling_mutations_counterexample:
  "someMutationChangesEdits [setEdits 1, setEdits 0] plain \<and>
   \<not> thumbnailNeedsUpdate plain (inOrder [setEdits 1, setEdits 0] plain) \<and>
   map_option effects
     (run init [UpdatePhotoWork photoA (setEdits 1), UpdatePhotoWork photoA (setEdits 0),
                FetchResolved 0 plain]) =
     Some [FetchPhotoWork ''/photos/a.jpg'', DispatchChangePhotoWork 1 plain,
           StorePhotoWork ''/photos/a.jpg'' plain]"
  by (simp add: queue_simps)

text \<open>
  C5: (amended) for every cycle in which the PhotoWork after all queued mutations
  differs from the fetched PhotoWork in a property other than \<^verbatim>\<open>flagged\<close>,
  \<^verbatim>\<open>thumbnailNeedsUpdate\<close> is true and \<^verbatim>\<open>onThumnailChange\<close> is called.
\<close>

theorem net_change_forces_thumbnail:
  assumes "awaiting s a Fetching"
    and "edits (inOrder (updates (objs s ! a)) fetched) \<noteq> edits fetched"
  shows "thumbnailNeedsUpdate fetched (inOrder (updates (objs s ! a)) fetched) \<and>
    (\<exists>s'. step s (FetchResolved a fetched) = Some s' \<and>
       effects s' = effects s @
         [DispatchChangePhotoWork (photo_id (photo (objs s ! a)))
            (inOrder (updates (objs s ! a)) fetched),
          StorePhotoWork (pathOf s a) (inOrder (updates (objs s ! a)) fetched),
          OnThumnailChange (photo_id (photo (objs s ! a)))])"
proof -
  have t: "thumbnailNeedsUpdate fetched (inOrder (updates (objs s ! a)) fetched)"
    using assms(2) by (auto simp: thumbnailNeedsUpdate_iff)
  then show ?thesis using assms(1) by (simp add: onFetched_effects)
qed

theorem net_change_forces_thumbnail_witness:
  "awaiting scenarioA 0 Fetching \<and>
   inOrder (updates (objs scenarioA ! 0)) plain = \<lparr>flagged = Some (JBool True), edits = 7\<rparr> \<and>
   edits \<lparr>flagged = Some (JBool True), edits = 7::int\<rparr> \<noteq> edits plain \<and>
   thumbnailNeedsUpdate plain \<lparr>flagged = Some (JBool True), edits = 7\<rparr> \<and>
   step scenarioA (FetchResolved 0 plain) \<noteq> None \<and>
   effects (the (step scenarioA (FetchResolved 0 plain))) =
     [FetchPhotoWork ''/photos/a.jpg'',
      DispatchChangePhotoWork 1 \<lparr>flagged = Some (JBool True), edits = 7\<rparr>,
      StorePhotoWork ''/photos/a.jpg'' \<lparr>flagged = Some (JBool True), edits = 7\<rparr>,
      OnThumnailChange 1]"
proof -
  have h1: "awaiting scenarioA 0 Fetching" by (simp add: scenarioA_def calls_def queue_simps)
  have w: "inOrder (updates (objs scenarioA ! 0)) plain = \<lparr>flagged = Some (JBool True), edits = 7\<rparr>"
    by (simp add: scenarioA_def calls_def queue_simps)
  have h2: "edits (inOrder (updates (objs scenarioA ! 0)) plain) \<noteq> edits plain"
    by (simp add: w) (simp add: plain_def)
  have e: "effects scenarioA = [FetchPhotoWork ''/photos/a.jpg'']"
    "photo_id (photo (objs scenarioA ! 0)) = 1" "pathOf scenarioA 0 = ''/photos/a.jpg''"
    by (simp_all add: scenarioA_def calls_def queue_simps)
  note t = net_change_forces_thumbnail [OF h1 h2, unfolded w e]
  show ?thesis
    using t h1 w by (auto simp: plain_def)
qed

section \<open>Properties of flagging\<close>



lemma updatePhotoWork_effects:
  "\<exists>d. (\<forall>x. updatePhotoWork (s\<lparr>effects := x\<rparr>) ph up =
           (updatePhotoWork s ph up)\<lparr>effects := x @ d\<rparr>) \<and>
       effects (updatePhotoWork s ph up) = effects s @ d \<and> filter isDb d = []"
proof (cases "pendingUpdates s (master ph)")
  case None
  show ?thesis
    by (rule exI [of _ "[FetchPhotoWork (master ph)]"])
       (simp add: updatePhotoWork_def None Let_def)
next
  case (Some b)
  show ?thesis
    by (rule exI [of _ "[]"]) (simp add: updatePhotoWork_def Some Let_def)
qed





lemma app_fields [simp]:
  "queue (emit a x) = (queue a)\<lparr>effects := effects (queue a) @ [x]\<rparr>"
  "tasks (emit a x) = tasks a"
  "queue (become a t tk) = queue a"
  "tasks (become a t tk) = (tasks a)[t := tk]"
  by (simp_all add: emit_def become_def)

lemma dbLog_emit [simp]: "dbLog (emit a x) = dbLog a @ (if isDb x then [x] else [])"
  by (simp add: dbLog_def)

lemma dbLog_become [simp]: "dbLog (become a t tk) = dbLog a"
  by (simp add: dbLog_def)


lemma dbLog_storeFlagged [simp]:
  "dbLog (a\<lparr>queue := storeFlagged (queue a) ph b\<rparr>) = dbLog a"
  using updatePhotoWork_effects [of "queue a" ph "flagMutation b"]
  by (auto simp: dbLog_def storeFlagged_def)

lemma dbLog_flagEach [simp]: "dbLog (flagEach a ph flg) = dbLog a @ [SaveFlag (photo_id ph) flg]"
  by (simp add: flagEach_def)

lemma tasks_flagEach [simp]: "tasks (flagEach a ph flg) = tasks a"
  by (simp add: flagEach_def)





lemma dbLog_tasks [simp]: "dbLog (a\<lparr>tasks := ts\<rparr>) = dbLog a"
  by (simp add: dbLog_def)















section \<open>Properties of the detail reducer\<close>

text \<open>
  C10: for every detail-view state and every \<^verbatim>\<open>CHANGE_PHOTOWORK\<close> action: if the state is
  \<^verbatim>\<open>null\<close> or its current photo is another one than the action's, the reducer returns the
  state unchanged (and creates no object); if the photo is the action's, the new state's
  \<^verbatim>\<open>photoWork\<close> refers to a new object, distinct from the payload and from every object
  there was, whose content is the payload's, no existing object is changed, and \<^verbatim>\<open>showDiff\<close>,
  \<^verbatim>\<open>fetchState\<close>, \<^verbatim>\<open>sectionId\<close>, \<^verbatim>\<open>photoIndex\<close>, \<^verbatim>\<open>photoId\<close> and \<^verbatim>\<open>photoDetail\<close> are as before.
\<close>

theorem detail_change_photowork:
  "(otherPhoto state pid \<longrightarrow> detail h state (CHANGE_PHOTOWORK pid pw) = Inr (state, h)) \<and>
   (state = Some st \<and> photoId (currentPhoto st) = pid \<and> pw < length h \<longrightarrow>
      (\<exists>st' h'. detail h state (CHANGE_PHOTOWORK pid pw) = Inr (Some st', h') \<and>
         photoWork (currentPhoto st') = Some (length h) \<and>
         length h' = Suc (length h) \<and> h' ! length h = h ! pw \<and> length h \<noteq> pw \<and>
         (\<forall>a < length h. h' ! a = h ! a) \<and>
         showDiff st' = showDiff st \<and>
         fetchState (currentPhoto st') = fetchState (currentPhoto st) \<and>
         sectionId (currentPhoto st') = sectionId (currentPhoto st) \<and>
         photoIndex (currentPhoto st') = photoIndex (currentPhoto st) \<and>
         photoId (currentPhoto st') = photoId (currentPhoto st) \<and>
         photoDetail (currentPhoto st') = photoDetail (currentPhoto st)))"
proof (intro conjI impI)
  assume "otherPhoto state pid"
  then show "detail h state (CHANGE_PHOTOWORK pid pw) = Inr (state, h)"
    by (cases state) (simp_all add: otherPhoto_def)
next
  assume m: "state = Some st \<and> photoId (currentPhoto st) = pid \<and> pw < length h"
  let ?st' = "st\<lparr>currentPhoto := (currentPhoto st)\<lparr>photoWork := Some (length h)\<rparr>\<rparr>"
  let ?h' = "h @ [h ! pw]"
  have d: "detail h state (CHANGE_PHOTOWORK pid pw) = Inr (Some ?st', ?h')"
    using m by simp
  have copy: "length ?h' = Suc (length h)" "?h' ! length h = h ! pw" "length h \<noteq> pw"
    using m by simp_all
  have frame: "\<forall>a < length h. ?h' ! a = h ! a"
    by (simp add: nth_append)
  have fields: "photoWork (currentPhoto ?st') = Some (length h)"
    "showDiff ?st' = showDiff st"
    "fetchState (currentPhoto ?st') = fetchState (currentPhoto st)"
    "sectionId (currentPhoto ?st') = sectionId (currentPhoto st)"
    "photoIndex (currentPhoto ?st') = photoIndex (currentPhoto st)"
    "photoId (currentPhoto ?st') = photoId (currentPhoto st)"
    "photoDetail (currentPhoto ?st') = photoDetail (currentPhoto st)"
    by simp_all
  show "\<exists>st' h'. detail h state (CHANGE_PHOTOWORK pid pw) = Inr (Some st', h') \<and>
         photoWork (currentPhoto st') = Some (length h) \<and>
         length h' = Suc (length h) \<and> h' ! length h = h ! pw \<and> length h \<noteq> pw \<and>
         (\<forall>a < length h. h' ! a = h ! a) \<and>
         showDiff st' = showDiff st \<and>
         fetchState (currentPhoto st') = fetchState (currentPhoto st) \<and>
         sectionId (currentPhoto st') = sectionId (currentPhoto st) \<and>
         photoIndex (currentPhoto st') = photoIndex (currentPhoto st) \<and>
         photoId (currentPhoto st') = photoId (currentPhoto st) \<and>
         photoDetail (currentPhoto st') = photoDetail (currentPhoto st)"
    using d copy frame fields by blast
qed

theorem detail_change_photowork_witness:
  "otherPhoto (Some showing) 2 \<and>
   detail works (Some showing) (CHANGE_PHOTOWORK 2 1) = Inr (Some showing, works) \<and>
   photoId (currentPhoto showing) = 1 \<and> (1::nat) < length works \<and>
   detail works (Some showing) (CHANGE_PHOTOWORK 1 1) =
     Inr (Some (showing\<lparr>currentPhoto := (currentPhoto showing)\<lparr>photoWork := Some 2\<rparr>\<rparr>),
          [plain, \<lparr>flagged = None, edits = 5\<rparr>, \<lparr>flagged = None, edits = 5\<rparr>])"
proof -
  have o: "otherPhoto (Some showing) 2" by (simp add: otherPhoto_def showing_def)
  have m: "Some showing = Some showing \<and> photoId (currentPhoto showing) = 1 \<and> 1 < length works"
    by (simp add: showing_def works_def)
  have 1: "detail works (Some showing) (CHANGE_PHOTOWORK 2 1) = Inr (Some showing, works)"
    using detail_change_photowork [of "Some showing" 2 works 1 showing] o by blast
  obtain st' h' where 2: "detail works (Some showing) (CHANGE_PHOTOWORK 1 1) = Inr (Some st', h')"
    using detail_change_photowork [of "Some showing" 1 works 1 showing] m by blast
  have "detail works (Some showing) (CHANGE_PHOTOWORK 1 1) =
     Inr (Some (showing\<lparr>currentPhoto := (currentPhoto showing)\<lparr>photoWork := Some 2\<rparr>\<rparr>),
          [plain, \<lparr>flagged = None, edits = 5\<rparr>, \<lparr>flagged = None, edits = 5\<rparr>])"
    using 2 m by (simp add: works_def eval_nat_numeral)
  then show ?thesis using o 1 m by blast
qed


section \<open>The sections reducer changes the state it is given\<close>

lemmas sections_simps =
  sections_CHANGE_PHOTOS_def library_def june_def libraryArrays_def photoA_def photoB_def
  decrement_def arraysAfter_def stateAfter_def

text \<open>
  C7: every reducer returns the new state without changing any part of the state it was
  given; in particular \<^verbatim>\<open>CHANGE_PHOTOS\<close> of \<^verbatim>\<open>sections\<close> leaves the \<^verbatim>\<open>photoIds\<close> arrays of the
  previous state as they were. The code does not: \<^verbatim>\<open>newSection\<close> is a shallow copy of
  \<^verbatim>\<open>section\<close>, so \<^verbatim>\<open>newSection.photoIds.splice\<close> removes the id from the array the previous
  state holds. Here photo 1 of a section with the photos 1 and 2 is moved to the trash:
  the array of the previous state, at address 0, holds 1 and 2 before and only 2 after.
\<close>

theorem change_photos_mutates_previous_state:
  "map_option photoIds (byId library ''2018-06'') = Some (Some 0) \<and>
   libraryArrays 0 = [1, 2] \<and>
   arraysAfter (sections_CHANGE_PHOTOS libraryArrays library [photoA] (Some True)) 0 = [2] \<and>
   map_option ids (stateAfter (sections_CHANGE_PHOTOS libraryArrays library [photoA] (Some True)))
     = Some [''2018-06'']"
  by (simp add: sections_simps)

text \<open>
  When the trashed state is not part of the update, the branch writes only to the copy
  \<^verbatim>\<open>newPhotoData\<close>, and no array changes.
\<close>

lemma updatePhotos_no_trash_pure:
  assumes "updatePhotos None section pd ups (arrs, new, totalCount, photoCnt) = Inr (arrs', new', totalCount', photoCnt')"
  shows "arrs' = arrs"
  using assms
proof (induction ups arbitrary: new)
  case Nil
  then show ?case by simp
next
  case (Cons up ups)
  show ?case
  proof (cases "pd (photo_id up)")
    case None
    then show ?thesis using Cons by simp
  next
    case (Some prev)
    then show ?thesis using Cons by (simp split: prod.splits option.splits)
  qed
qed

lemma changeSections_no_trash_pure:
  assumes "changeSections None ups sectionById sids (arrs, totalCount, photoCnt, newIds, newById) =
      Inr (arrs', totalCount', photoCnt', newIds', newById')"
  shows "arrs' = arrs"
  using assms
proof (induction sids arbitrary: totalCount photoCnt newIds newById)
  case Nil
  then show ?case by simp
next
  case (Cons sid sids)
  obtain sect where sec: "sectionById sid = Some sect"
    using Cons.prems by (cases "sectionById sid") simp_all
  show ?case
  proof (cases "photoData sect")
    case None
    then show ?thesis using Cons.prems sec Cons.IH by simp
  next
    case (Some pd)
    obtain arrs1 new tc pc where
      u: "updatePhotos None sect pd ups (arrs, None, totalCount, photoCnt) = Inr (arrs1, new, tc, pc)"
      using Cons.prems sec Some
      by (cases "updatePhotos None sect pd ups (arrs, None, totalCount, photoCnt)") auto
    have a1: "arrs1 = arrs" using u by (rule updatePhotos_no_trash_pure)
    show ?thesis
      using Cons.prems sec Some u a1 Cons.IH
      by (auto split: option.splits prod.splits if_splits)
  qed
qed

lemma sections_CHANGE_PHOTOS_no_trash_pure:
  assumes "sections_CHANGE_PHOTOS arrs state ups None = Inr (state', arrs')"
  shows "arrs' = arrs"
proof -
  obtain tc pc newIds newById where
    "changeSections None ups (byId state) (ids state)
       (arrs, totalPhotoCount state, photoCount state, [], Map.empty) =
     Inr (arrs', tc, pc, newIds, newById)"
    using assms by (auto simp: sections_CHANGE_PHOTOS_def split: sum.splits)
  then show ?thesis by (rule changeSections_no_trash_pure)
qed

section \<open>Properties of the walker\<close>

fun itemPaths :: "walked \<Rightarrow> string list" where
  "itemPaths WFalse = []"
| "itemPaths (WPath p) = (if p = [] then [] else [p])"
| "itemPaths (WPaths ps) = ps"

lemma foldl_concatItem:
  "foldl concatItem acc (filter truthyItem xs) = acc @ concat (map itemPaths xs)"
proof (induction xs arbitrary: acc)
  case Nil
  then show ?case by simp
next
  case (Cons x xs)
  then show ?case by (cases x) simp_all
qed

lemma filesBelow_contains_dir:
  "(ds, p) \<in> set (filesBelow join dirName entries) \<Longrightarrow> dirName \<in> set ds"
  "(ds, p) \<in> set (filesBelowEntry join dirName e) \<Longrightarrow> dirName \<in> set ds"
proof -
  show e: "dirName \<in> set ds" if "(ds, p) \<in> set (filesBelowEntry join dirName e)" for e
  proof (cases e)
    case (Pair fileName node)
    then show ?thesis using that by (cases node) auto
  qed
  show "dirName \<in> set ds" if "(ds, p) \<in> set (filesBelow join dirName entries)"
    using that e by auto
qed

lemma walker_filesBelow:
  "(\<forall>d f. join d f \<noteq> []) \<Longrightarrow> walker join dirName blacklist entries =
      (if dirName \<in> set blacklist then WFalse
       else WPaths (map snd (filter (reachable blacklist) (filesBelow join dirName entries))))"
  "(\<forall>d f. join d f \<noteq> []) \<Longrightarrow> dirName \<notin> set blacklist \<Longrightarrow>
      itemPaths (walkEntry join dirName blacklist e) =
      map snd (filter (reachable blacklist) (filesBelowEntry join dirName e))"
proof (induction join dirName blacklist entries and join dirName blacklist e
    rule: walker_walkEntry.induct)
  case (1 join dirName blacklist entries)
  show ?case
  proof (cases "dirName \<in> set blacklist")
    case True
    then show ?thesis by simp
  next
    case False
    have "concat (map itemPaths (map (walkEntry join dirName blacklist) entries)) =
        concat (map (\<lambda>e. map snd (filter (reachable blacklist) (filesBelowEntry join dirName e))) entries)"
      using "1.IH" [OF False _ "1.prems" False] by (simp add: comp_def cong: map_cong)
    also have "\<dots> = map snd (filter (reachable blacklist) (filesBelow join dirName entries))"
      by (simp add: map_concat filter_concat comp_def)
    finally show ?thesis using False by (simp add: foldl_concatItem)
  qed
next
  case (2 join dirName blacklist fileName)
  then show ?case by (simp add: reachable_def)
next
  case (3 join dirName blacklist fileName sub)
  note ih = "3.IH" [OF "3.prems"(1)]
  show ?case
  proof (cases "join dirName fileName \<in> set blacklist")
    case True
    have "\<not> reachable blacklist (dirName # ds, p)"
      if "(ds, p) \<in> set (filesBelow join (join dirName fileName) sub)" for ds p
      using filesBelow_contains_dir(1) [OF that] True by (auto simp: reachable_def)
    then have "filter (reachable blacklist)
        (map (\<lambda>(ds, p). (dirName # ds, p)) (filesBelow join (join dirName fileName) sub)) = []"
      unfolding filter_empty_conv by auto
    then show ?thesis using ih True by simp
  next
    case False
    have r: "reachable blacklist (dirName # ds, p) = reachable blacklist (ds, p)" for ds p
      using "3.prems"(2) by (simp add: reachable_def)
    have "map snd (filter (reachable blacklist) (map (\<lambda>(ds, p). (dirName # ds, p)) xs)) =
        map snd (filter (reachable blacklist) xs)" for xs
      by (induction xs) (auto simp: r)
    then show ?thesis using ih False by simp
  qed
qed

text \<open>
  C8: as stated, with an exclusion set of names, the claim fails: the walker compares the
  blacklist with \<^verbatim>\<open>dirName\<close>, which from the second level on is the joined path, not the
  name of the directory. With the name \<^verbatim>\<open>skip\<close> in the set, the file in the directory
  \<^verbatim>\<open>skip\<close> is returned, whereas the listing with the name-based exclusion omits it.
\<close>

theorem walker_by_name_counterexample:
  "walker posixJoin ''/photos'' [''skip''] photosTree =
     WPaths [''/photos/skip/x.jpg'', ''/photos/a.jpg''] \<and>
   listedByName posixJoin [''skip''] ''/photos'' photosTree = [''/photos/a.jpg'']"
  by (simp add: photosTree_def posixJoin_def)

text \<open>
  C8: (amended) for every root directory and exclusion set, the walker returns every
  non-excluded file path under the root, in the order of the directory listings: each
  file that lies in no excluded directory appears in the result, and files under excluded
  directories are omitted, where a directory is excluded when its path as the walker
  builds it (the root as given, below it the parent's path joined with the entry's name) is
  an element of the exclusion set; when the root itself is excluded, the walker returns
  \<^verbatim>\<open>false\<close>. (\<^verbatim>\<open>Path.join\<close> never returns the empty string.)
\<close>

theorem walker_lists_reachable:
  assumes "\<forall>d f. join d f \<noteq> []"
  shows "walker join dirName blacklist entries =
      (if dirName \<in> set blacklist then WFalse
       else WPaths (map snd (filter (reachable blacklist) (filesBelow join dirName entries)))) \<and>
    (dirName \<notin> set blacklist \<longrightarrow>
       (\<exists>ps. walker join dirName blacklist entries = WPaths ps \<and>
          (\<forall>p. p \<in> set ps \<longleftrightarrow>
             (\<exists>ds. (ds, p) \<in> set (filesBelow join dirName entries) \<and>
                   set ds \<inter> set blacklist = {}))))"
proof -
  let ?ps = "map snd (filter (reachable blacklist) (filesBelow join dirName entries))"
  have w: "walker join dirName blacklist entries =
      (if dirName \<in> set blacklist then WFalse else WPaths ?ps)"
    using assms by (rule walker_filesBelow(1))
  have m: "p \<in> set ?ps \<longleftrightarrow>
      (\<exists>ds. (ds, p) \<in> set (filesBelow join dirName entries) \<and> set ds \<inter> set blacklist = {})"
    for p
  proof
    assume "p \<in> set ?ps"
    then obtain f where f: "f \<in> set (filesBelow join dirName entries)" "reachable blacklist f"
      "p = snd f" by (auto simp del: filesBelow.simps)
    then have "(fst f, p) \<in> set (filesBelow join dirName entries)"
      "set (fst f) \<inter> set blacklist = {}"
      by (simp_all add: reachable_def del: filesBelow.simps)
    then show "\<exists>ds. (ds, p) \<in> set (filesBelow join dirName entries) \<and> set ds \<inter> set blacklist = {}"
      by blast
  next
    assume "\<exists>ds. (ds, p) \<in> set (filesBelow join dirName entries) \<and> set ds \<inter> set blacklist = {}"
    then obtain ds where "(ds, p) \<in> set (filesBelow join dirName entries)"
      "reachable blacklist (ds, p)" by (auto simp: reachable_def simp del: filesBelow.simps)
    then have "(ds, p) \<in> set (filter (reachable blacklist) (filesBelow join dirName entries))"
      by (simp del: filesBelow.simps)
    then have "snd (ds, p) \<in> set ?ps" unfolding set_map by (rule imageI)
    then show "p \<in> set ?ps" by simp
  qed
  have "\<exists>ps. walker join dirName blacklist entries = WPaths ps \<and>
          (\<forall>p. p \<in> set ps \<longleftrightarrow>
             (\<exists>ds. (ds, p) \<in> set (filesBelow join dirName entries) \<and>
                   set ds \<inter> set blacklist = {}))"
    if "dirName \<notin> set blacklist"
  proof (intro exI conjI allI)
    show "walker join dirName blacklist entries = WPaths ?ps"
      using w that by (simp del: walker.simps filesBelow.simps)
    show "p \<in> set ?ps \<longleftrightarrow>
      (\<exists>ds. (ds, p) \<in> set (filesBelow join dirName entries) \<and> set ds \<inter> set blacklist = {})"
      for p by (rule m)
  qed
  then show ?thesis using w by blast
qed

theorem walker_lists_reachable_witness:
  "walker posixJoin ''/photos'' [''/photos/skip''] photosTree = WPaths [''/photos/a.jpg''] \<and>
   filesBelow posixJoin ''/photos'' photosTree =
     [([''/photos'', ''/photos/skip''], ''/photos/skip/x.jpg''), ([''/photos''], ''/photos/a.jpg'')] \<and>
   walker posixJoin ''/photos/skip'' [''/photos/skip''] [(''x.jpg'', File)] = WFalse"
proof -
  have h: "\<forall>d f. posixJoin d f \<noteq> []" by (simp add: posixJoin_def)
  have u: "filesBelow posixJoin ''/photos'' photosTree =
     [([''/photos'', ''/photos/skip''], ''/photos/skip/x.jpg''), ([''/photos''], ''/photos/a.jpg'')]"
    by (simp add: photosTree_def posixJoin_def)
  have "walker posixJoin ''/photos'' [''/photos/skip''] photosTree =
      (if ''/photos'' \<in> set [''/photos/skip''] then WFalse
       else WPaths (map snd (filter (reachable [''/photos/skip''])
              (filesBelow posixJoin ''/photos'' photosTree))))"
    using walker_lists_reachable [OF h, of "''/photos''" "[''/photos/skip'']" photosTree]
    by (rule conjunct1)
  then have 1: "walker posixJoin ''/photos'' [''/photos/skip''] photosTree =
      WPaths [''/photos/a.jpg'']"
    unfolding u by (simp add: reachable_def del: walker.simps)
  have "walker posixJoin ''/photos/skip'' [''/photos/skip''] [(''x.jpg'', File)] =
      (if ''/photos/skip'' \<in> set [''/photos/skip''] then WFalse
       else WPaths (map snd (filter (reachable [''/photos/skip''])
              (filesBelow posixJoin ''/photos/skip'' [(''x.jpg'', File)]))))"
    using walker_lists_reachable [OF h, of "''/photos/skip''" "[''/photos/skip'']"
        "[(''x.jpg'', File)]"]
    by (rule conjunct1)
  then have 2: "walker posixJoin ''/photos/skip'' [''/photos/skip''] [(''x.jpg'', File)] = WFalse"
    by (simp del: walker.simps)
  show ?thesis using 1 u 2 by blast
qed

end
